theory Spec2Isabelle
  imports Main "HOL-Library.Sublist" "HOL-Library.Multiset"
begin

section \<open>Ports (FilePort and ParamPort)\<close>

text \<open>
  Go ports are heap objects reached through pointers, and channels are heap objects
  created by \<^verbatim>\<open>make(chan T, BUFSIZE)\<close>. Both are modelled by an explicit store:
  a port pointer is an index into the list of allocated ports, a channel is an index
  into the list of allocated channels (the list holds each channel's buffer capacity).
  \<^verbatim>\<open>BUFSIZE\<close> is a constant of the package that the port code only reads; it
  is a parameter of the operations that allocate channels.
\<close>

record FilePort =
  InChan :: nat
  inChans :: "nat list"
  outChans :: "nat list"
  connected :: bool

record fheap =
  fports :: "FilePort list"
  fchans :: "nat list"

definition makeChan :: "nat \<Rightarrow> fheap \<Rightarrow> nat \<times> fheap" where
  "makeChan cap h = (length (fchans h), h\<lparr>fchans := fchans h @ [cap]\<rparr>)"

definition NewFilePort :: "nat \<Rightarrow> fheap \<Rightarrow> nat \<times> fheap" where
  "NewFilePort BUFSIZE h =
     (let (c, h1) = makeChan BUFSIZE h;
          fp = \<lparr>InChan = c, inChans = [], outChans = [], connected = False\<rparr>
      in (length (fports h1), h1\<lparr>fports := fports h1 @ [fp]\<rparr>))"

definition AddOutChan :: "nat \<Rightarrow> nat \<Rightarrow> fheap \<Rightarrow> fheap" where
  "AddOutChan pt outChan h =
     h\<lparr>fports := (fports h)[pt := (fports h ! pt)\<lparr>outChans := outChans (fports h ! pt) @ [outChan]\<rparr>]\<rparr>"

definition AddInChan :: "nat \<Rightarrow> nat \<Rightarrow> fheap \<Rightarrow> fheap" where
  "AddInChan pt inChan h =
     h\<lparr>fports := (fports h)[pt := (fports h ! pt)\<lparr>inChans := inChans (fports h ! pt) @ [inChan]\<rparr>]\<rparr>"

definition SetConnectedStatus :: "nat \<Rightarrow> bool \<Rightarrow> fheap \<Rightarrow> fheap" where
  "SetConnectedStatus pt b h =
     h\<lparr>fports := (fports h)[pt := (fports h ! pt)\<lparr>connected := b\<rparr>]\<rparr>"

text \<open>
  \<^verbatim>\<open>func (localPort *FilePort) Connect(remotePort *FilePort)\<close>. A pointer that is
  not an allocated port is Go's nil pointer, on which the first field access panics:
  the model returns \<open>None\<close> there. The two pointers may be the same port.
\<close>

definition FilePort_Connect :: "nat \<Rightarrow> nat \<Rightarrow> nat \<Rightarrow> fheap \<Rightarrow> fheap option" where
  "FilePort_Connect BUFSIZE localPort remotePort h =
     (if localPort < length (fports h) \<and> remotePort < length (fports h) then
        (let (inBoundChan, h1) = makeChan BUFSIZE h;
             h2 = AddInChan localPort inBoundChan h1;
             h3 = AddOutChan remotePort inBoundChan h2;
             (outBoundChan, h4) = makeChan BUFSIZE h3;
             h5 = AddOutChan localPort outBoundChan h4;
             h6 = AddInChan remotePort outBoundChan h5;
             h7 = SetConnectedStatus localPort True h6
         in Some (SetConnectedStatus remotePort True h7))
      else None)"

text \<open>A client program, as far as ports are concerned: it allocates ports and connects them.\<close>

datatype port_op = New | Conn nat nat

fun port_step :: "nat \<Rightarrow> port_op \<Rightarrow> fheap \<Rightarrow> fheap option" where
  "port_step B New h = Some (snd (NewFilePort B h))"
| "port_step B (Conn l r) h = FilePort_Connect B l r h"

fun port_run :: "nat \<Rightarrow> port_op list \<Rightarrow> fheap \<Rightarrow> fheap option" where
  "port_run B [] h = Some h"
| "port_run B (c # cs) h = (case port_step B c h of None \<Rightarrow> None | Some h' \<Rightarrow> port_run B cs h')"

definition empty_fheap :: fheap where
  "empty_fheap = \<lparr>fports = [], fchans = []\<rparr>"

text \<open>
  Every inbound channel appears exactly once in exactly one port's inbound list: two
  positions of inbound lists that hold the same channel are the same position of the
  same port.
\<close>

definition inbound_unique :: "fheap \<Rightarrow> bool" where
  "inbound_unique h \<longleftrightarrow>
     (\<forall>p < length (fports h). \<forall>q < length (fports h).
        \<forall>i < length (inChans (fports h ! p)). \<forall>j < length (inChans (fports h ! q)).
          inChans (fports h ! p) ! i = inChans (fports h ! q) ! j \<longrightarrow> p = q \<and> i = j)"

text \<open>Every registered channel is one that \<^verbatim>\<open>make\<close> has returned.\<close>

definition chans_allocated :: "fheap \<Rightarrow> bool" where
  "chans_allocated h \<longleftrightarrow>
     (\<forall>p < length (fports h).
        (\<forall>c \<in> set (inChans (fports h ! p)). c < length (fchans h)) \<and>
        (\<forall>c \<in> set (outChans (fports h ! p)). c < length (fchans h)))"

subsection \<open>FilePort.Connect: wiring and invariants\<close>

lemma FilePort_Connect_effect:
  assumes "l < length (fports h)" "r < length (fports h)"
  shows "\<exists>h'. FilePort_Connect B l r h = Some h' \<and>
           fchans h' = fchans h @ [B, B] \<and>
           length (fports h') = length (fports h) \<and>
           (\<forall>p < length (fports h).
              inChans (fports h' ! p) = inChans (fports h ! p)
                 @ (if p = l then [length (fchans h)] else [])
                 @ (if p = r then [Suc (length (fchans h))] else []) \<and>
              outChans (fports h' ! p) = outChans (fports h ! p)
                 @ (if p = r then [length (fchans h)] else [])
                 @ (if p = l then [Suc (length (fchans h))] else []) \<and>
              connected (fports h' ! p) = (connected (fports h ! p) \<or> p = l \<or> p = r) \<and>
              InChan (fports h' ! p) = InChan (fports h ! p))"
  using assms
  by (simp add: FilePort_Connect_def makeChan_def AddInChan_def AddOutChan_def
      SetConnectedStatus_def nth_list_update)

lemma NewFilePort_effect:
  "fports (snd (NewFilePort B h)) = fports h @ [\<lparr>InChan = length (fchans h), inChans = [], outChans = [], connected = False\<rparr>]
   \<and> fchans (snd (NewFilePort B h)) = fchans h @ [B]"
  by (simp add: NewFilePort_def makeChan_def)

lemma inbound_unique_iff:
  "inbound_unique h \<longleftrightarrow>
     (\<forall>p < length (fports h). distinct (inChans (fports h ! p))) \<and>
     (\<forall>p < length (fports h). \<forall>q < length (fports h). p \<noteq> q \<longrightarrow>
         set (inChans (fports h ! p)) \<inter> set (inChans (fports h ! q)) = {})"
  (is "?L \<longleftrightarrow> ?D \<and> ?J")
proof
  assume L: ?L
  have ?D
    using L unfolding inbound_unique_def distinct_conv_nth by blast
  moreover have ?J
  proof (intro allI impI)
    fix p q assume pq: "p < length (fports h)" "q < length (fports h)" "p \<noteq> q"
    show "set (inChans (fports h ! p)) \<inter> set (inChans (fports h ! q)) = {}"
    proof (rule ccontr)
      assume "set (inChans (fports h ! p)) \<inter> set (inChans (fports h ! q)) \<noteq> {}"
      then obtain c where "c \<in> set (inChans (fports h ! p))" "c \<in> set (inChans (fports h ! q))"
        by blast
      then obtain i j where "i < length (inChans (fports h ! p))" "inChans (fports h ! p) ! i = c"
        "j < length (inChans (fports h ! q))" "inChans (fports h ! q) ! j = c"
        by (auto simp: in_set_conv_nth)
      with L pq show False unfolding inbound_unique_def by metis
    qed
  qed
  ultimately show "?D \<and> ?J" ..
next
  assume DJ: "?D \<and> ?J"
  show ?L
    unfolding inbound_unique_def
  proof (intro allI impI)
    fix p q i j
    assume a: "p < length (fports h)" "q < length (fports h)"
      "i < length (inChans (fports h ! p))" "j < length (inChans (fports h ! q))"
      "inChans (fports h ! p) ! i = inChans (fports h ! q) ! j"
    have pq: "p = q"
    proof (rule ccontr)
      assume "p \<noteq> q"
      with DJ a(1,2) have "set (inChans (fports h ! p)) \<inter> set (inChans (fports h ! q)) = {}" by blast
      moreover have "inChans (fports h ! p) ! i \<in> set (inChans (fports h ! p))" using a(3) by simp
      moreover have "inChans (fports h ! q) ! j \<in> set (inChans (fports h ! q))" using a(4) by simp
      ultimately show False using a(5) by auto
    qed
    moreover have "i = j"
      using DJ a pq by (auto simp: distinct_conv_nth)
    ultimately show "p = q \<and> i = j" ..
  qed
qed

lemma FilePort_Connect_preserves:
  assumes "chans_allocated h" "inbound_unique h" "FilePort_Connect B l r h = Some h'"
  shows "chans_allocated h' \<and> inbound_unique h'"
proof -
  have lr: "l < length (fports h)" "r < length (fports h)"
    using assms(3) by (auto simp: FilePort_Connect_def split: if_splits)
  from FilePort_Connect_effect[OF lr, of B] assms(3)
  have eff: "fchans h' = fchans h @ [B, B]" "length (fports h') = length (fports h)"
    "\<And>p. p < length (fports h) \<Longrightarrow> inChans (fports h' ! p) = inChans (fports h ! p)
                 @ (if p = l then [length (fchans h)] else [])
                 @ (if p = r then [Suc (length (fchans h))] else [])"
    "\<And>p. p < length (fports h) \<Longrightarrow> outChans (fports h' ! p) = outChans (fports h ! p)
                 @ (if p = r then [length (fchans h)] else [])
                 @ (if p = l then [Suc (length (fchans h))] else [])"
    by auto
  have alloc: "\<And>p c. p < length (fports h) \<Longrightarrow> c \<in> set (inChans (fports h ! p)) \<Longrightarrow> c < length (fchans h)"
    using assms(1) by (auto simp: chans_allocated_def)
  have alloc_out: "\<And>p c. p < length (fports h) \<Longrightarrow> c \<in> set (outChans (fports h ! p)) \<Longrightarrow> c < length (fchans h)"
    using assms(1) by (auto simp: chans_allocated_def)
  have 1: "chans_allocated h'"
    unfolding chans_allocated_def eff(1,2)
  proof (intro allI impI conjI ballI)
    fix p c assume p: "p < length (fports h)" and c: "c \<in> set (inChans (fports h' ! p))"
    then have "c \<in> set (inChans (fports h ! p)) \<or> c = length (fchans h) \<or> c = Suc (length (fchans h))"
      by (auto simp: eff(3)[OF p] split: if_splits)
    then show "c < length (fchans h @ [B, B])" using alloc[OF p] by fastforce
  next
    fix p c assume p: "p < length (fports h)" and c: "c \<in> set (outChans (fports h' ! p))"
    then have "c \<in> set (outChans (fports h ! p)) \<or> c = length (fchans h) \<or> c = Suc (length (fchans h))"
      by (auto simp: eff(4)[OF p] split: if_splits)
    then show "c < length (fchans h @ [B, B])" using alloc_out[OF p] by fastforce
  qed
  have D: "\<And>p. p < length (fports h) \<Longrightarrow> distinct (inChans (fports h ! p))"
    and J: "\<And>p q. p < length (fports h) \<Longrightarrow> q < length (fports h) \<Longrightarrow> p \<noteq> q \<Longrightarrow>
         set (inChans (fports h ! p)) \<inter> set (inChans (fports h ! q)) = {}"
    using assms(2) unfolding inbound_unique_iff by blast+
  have new: "length (fchans h) \<notin> set (inChans (fports h ! p))"
    "Suc (length (fchans h)) \<notin> set (inChans (fports h ! p))" if "p < length (fports h)" for p
    using alloc[OF that] by fastforce+
  have 2: "inbound_unique h'"
    unfolding inbound_unique_iff eff(2)
  proof (intro conjI allI impI)
    fix p assume p: "p < length (fports h)"
    show "distinct (inChans (fports h' ! p))"
      using D[OF p] new[OF p] by (auto simp: eff(3)[OF p])
  next
    fix p q assume pq: "p < length (fports h)" "q < length (fports h)" "p \<noteq> q"
    show "set (inChans (fports h' ! p)) \<inter> set (inChans (fports h' ! q)) = {}"
      using J[OF pq] new[OF pq(1)] new[OF pq(2)] pq(3)
      by (auto simp: eff(3)[OF pq(1)] eff(3)[OF pq(2)])
  qed
  from 1 2 show ?thesis ..
qed

lemma NewFilePort_preserves:
  assumes "chans_allocated h" "inbound_unique h"
  shows "chans_allocated (snd (NewFilePort B h)) \<and> inbound_unique (snd (NewFilePort B h))"
proof -
  let ?h' = "snd (NewFilePort B h)"
  have f: "fports ?h' = fports h @ [\<lparr>InChan = length (fchans h), inChans = [], outChans = [], connected = False\<rparr>]"
    and c: "fchans ?h' = fchans h @ [B]"
    using NewFilePort_effect[of B h] by auto
  have 1: "chans_allocated ?h'"
    using assms(1) unfolding chans_allocated_def f c
    by (auto simp: nth_append less_Suc_eq)
  have 2: "inbound_unique ?h'"
    using assms(2) unfolding inbound_unique_iff f
    by (auto simp: nth_append less_Suc_eq)
  from 1 2 show ?thesis ..
qed

lemma port_run_preserves:
  "chans_allocated h \<Longrightarrow> inbound_unique h \<Longrightarrow> port_run B cs h = Some h'
     \<Longrightarrow> chans_allocated h' \<and> inbound_unique h'"
proof (induction cs arbitrary: h)
  case Nil
  then show ?case by simp
next
  case (Cons c cs)
  then obtain h1 where s: "port_step B c h = Some h1" and r: "port_run B cs h1 = Some h'"
    by (auto split: option.splits)
  have "chans_allocated h1 \<and> inbound_unique h1"
  proof (cases c)
    case New
    then show ?thesis using s NewFilePort_preserves[OF Cons.prems(1,2), of B] by auto
  next
    case (Conn l r)
    then show ?thesis using s FilePort_Connect_preserves[OF Cons.prems(1,2)] by auto
  qed
  then show ?case using Cons.IH r by blast
qed

lemma port_step_connected_mono:
  assumes "port_step B c h = Some h'" "p < length (fports h)" "connected (fports h ! p)"
  shows "p < length (fports h') \<and> connected (fports h' ! p)"
proof (cases c)
  case New
  then show ?thesis using assms NewFilePort_effect[of B h] by (auto simp: nth_append)
next
  case (Conn l r)
  then have C: "FilePort_Connect B l r h = Some h'" using assms by simp
  then have lr: "l < length (fports h)" "r < length (fports h)"
    by (auto simp: FilePort_Connect_def split: if_splits)
  from FilePort_Connect_effect[OF lr, of B] C assms(2,3) show ?thesis by auto
qed

lemma port_run_connected_mono:
  "port_run B cs h = Some h' \<Longrightarrow> p < length (fports h) \<Longrightarrow> connected (fports h ! p)
     \<Longrightarrow> p < length (fports h') \<and> connected (fports h' ! p)"
proof (induction cs arbitrary: h)
  case Nil
  then show ?case by simp
next
  case (Cons c cs)
  then obtain h1 where s: "port_step B c h = Some h1" and r: "port_run B cs h1 = Some h'"
    by (auto split: option.splits)
  from port_step_connected_mono[OF s Cons.prems(2,3)] Cons.IH[OF r] show ?case by blast
qed

lemma empty_fheap_inv: "chans_allocated empty_fheap \<and> inbound_unique empty_fheap"
  by (simp add: chans_allocated_def inbound_unique_def empty_fheap_def)

text \<open>
  Claim C9. In every store \<open>h\<close> reached from the empty store by allocating ports and
  connecting them, \<^verbatim>\<open>local.Connect(remote)\<close> on two allocated ports succeeds and
  allocates exactly two channels of capacity \<^verbatim>\<open>BUFSIZE\<close>, which are registered nowhere
  before the call; the first is appended to the inbound list of \<open>local\<close> and to the
  outbound list of \<open>remote\<close>, the second to the outbound list of \<open>local\<close> and to the
  inbound list of \<open>remote\<close>; both connected flags are true afterwards and no other
  port changes. Before and after the call every inbound channel appears exactly once in
  exactly one port's inbound list, and a connected flag that is true stays true through
  every further sequence of allocations and connects.
\<close>

theorem FilePort_Connect_wiring:
  assumes run: "port_run B ops empty_fheap = Some h"
    and l: "l < length (fports h)" and r: "r < length (fports h)"
  shows "\<exists>h'. FilePort_Connect B l r h = Some h' \<and>
           fchans h' = fchans h @ [B, B] \<and>
           (\<forall>p < length (fports h).
              length (fchans h) \<notin> set (inChans (fports h ! p)) \<union> set (outChans (fports h ! p)) \<and>
              Suc (length (fchans h)) \<notin> set (inChans (fports h ! p)) \<union> set (outChans (fports h ! p))) \<and>
           length (fports h') = length (fports h) \<and>
           (\<forall>p < length (fports h).
              inChans (fports h' ! p) = inChans (fports h ! p)
                 @ (if p = l then [length (fchans h)] else [])
                 @ (if p = r then [Suc (length (fchans h))] else []) \<and>
              outChans (fports h' ! p) = outChans (fports h ! p)
                 @ (if p = r then [length (fchans h)] else [])
                 @ (if p = l then [Suc (length (fchans h))] else []) \<and>
              connected (fports h' ! p) = (connected (fports h ! p) \<or> p = l \<or> p = r)) \<and>
           inbound_unique h \<and> inbound_unique h' \<and>
           (\<forall>ops' h'' p. port_run B ops' h = Some h'' \<longrightarrow> p < length (fports h) \<longrightarrow>
              connected (fports h ! p) \<longrightarrow> p < length (fports h'') \<and> connected (fports h'' ! p))"
proof -
  have inv: "chans_allocated h" "inbound_unique h"
    using port_run_preserves[OF _ _ run] empty_fheap_inv by blast+
  obtain h' where C: "FilePort_Connect B l r h = Some h'"
    and eff: "fchans h' = fchans h @ [B, B]" "length (fports h') = length (fports h)"
      "\<forall>p < length (fports h).
              inChans (fports h' ! p) = inChans (fports h ! p)
                 @ (if p = l then [length (fchans h)] else [])
                 @ (if p = r then [Suc (length (fchans h))] else []) \<and>
              outChans (fports h' ! p) = outChans (fports h ! p)
                 @ (if p = r then [length (fchans h)] else [])
                 @ (if p = l then [Suc (length (fchans h))] else []) \<and>
              connected (fports h' ! p) = (connected (fports h ! p) \<or> p = l \<or> p = r)"
    using FilePort_Connect_effect[OF l r, of B] by blast
  have fresh: "\<forall>p < length (fports h).
              length (fchans h) \<notin> set (inChans (fports h ! p)) \<union> set (outChans (fports h ! p)) \<and>
              Suc (length (fchans h)) \<notin> set (inChans (fports h ! p)) \<union> set (outChans (fports h ! p))"
    using inv(1) unfolding chans_allocated_def by fastforce
  have inv': "inbound_unique h'"
    using FilePort_Connect_preserves[OF inv C] by blast
  have mono: "\<forall>ops' h'' p. port_run B ops' h = Some h'' \<longrightarrow> p < length (fports h) \<longrightarrow>
              connected (fports h ! p) \<longrightarrow> p < length (fports h'') \<and> connected (fports h'' ! p)"
    using port_run_connected_mono by blast
  from C eff fresh inv(2) inv' mono show ?thesis by blast
qed

theorem FilePort_Connect_wiring_witness:
  "port_run 16 [New, New] empty_fheap =
     Some \<lparr>fports = [\<lparr>InChan = 0, inChans = [], outChans = [], connected = False\<rparr>,
                       \<lparr>InChan = 1, inChans = [], outChans = [], connected = False\<rparr>],
            fchans = [16, 16]\<rparr> \<and>
   FilePort_Connect 16 0 1
      \<lparr>fports = [\<lparr>InChan = 0, inChans = [], outChans = [], connected = False\<rparr>,
                  \<lparr>InChan = 1, inChans = [], outChans = [], connected = False\<rparr>],
       fchans = [16, 16]\<rparr> =
     Some \<lparr>fports = [\<lparr>InChan = 0, inChans = [2], outChans = [3], connected = True\<rparr>,
                       \<lparr>InChan = 1, inChans = [3], outChans = [2], connected = True\<rparr>],
            fchans = [16, 16, 16, 16]\<rparr> \<and>
   inbound_unique \<lparr>fports = [\<lparr>InChan = 0, inChans = [2], outChans = [3], connected = True\<rparr>,
                       \<lparr>InChan = 1, inChans = [3], outChans = [2], connected = True\<rparr>],
            fchans = [16, 16, 16, 16]\<rparr>"
proof -
  let ?h = "\<lparr>fports = [\<lparr>InChan = 0, inChans = [], outChans = [], connected = False\<rparr>,
                  \<lparr>InChan = 1, inChans = [], outChans = [], connected = False\<rparr>],
       fchans = [16, 16]\<rparr>"
  have run: "port_run 16 [New, New] empty_fheap = Some ?h"
    by (simp add: NewFilePort_def makeChan_def empty_fheap_def)
  have C: "FilePort_Connect 16 0 1 ?h =
     Some \<lparr>fports = [\<lparr>InChan = 0, inChans = [2], outChans = [3], connected = True\<rparr>,
                       \<lparr>InChan = 1, inChans = [3], outChans = [2], connected = True\<rparr>],
            fchans = [16, 16, 16, 16]\<rparr>"
    by (simp add: FilePort_Connect_def makeChan_def AddInChan_def AddOutChan_def SetConnectedStatus_def)
  from FilePort_Connect_wiring[OF run, of 0 1] run C show ?thesis by auto
qed

subsection \<open>ParamPort.Connect\<close>

text \<open>
  Errors that end the program. \<^verbatim>\<open>ParamPort.Connect\<close> calls \<^verbatim>\<open>os.Exit(1)\<close> itself;
  the other fatal errors go through the helper \<^verbatim>\<open>Check\<close>, see below.
\<close>

datatype error =
    NilPointerDereference
  | BothParamPortsInitialized
  | MissingOutpath string string
  | MissingIntarget string string
  | MissingInpath string string
  | MissingParam string string
  | ReplaceFailed string string
  | CommandFailed string
  | UnmarshalFailed string

record ParamPort =
  Chan :: "nat option"
  pconnected :: bool

record pheap =
  pports :: "ParamPort list"
  pchans :: "nat list"

definition NewParamPort :: "pheap \<Rightarrow> nat \<times> pheap" where
  "NewParamPort h = (length (pports h), h\<lparr>pports := pports h @ [\<lparr>Chan = None, pconnected = False\<rparr>]\<rparr>)"

definition setChan :: "nat \<Rightarrow> nat option \<Rightarrow> pheap \<Rightarrow> pheap" where
  "setChan pp c h = h\<lparr>pports := (pports h)[pp := (pports h ! pp)\<lparr>Chan := c\<rparr>]\<rparr>"

definition ParamPort_SetConnectedStatus :: "nat \<Rightarrow> bool \<Rightarrow> pheap \<Rightarrow> pheap" where
  "ParamPort_SetConnectedStatus pp b h =
     h\<lparr>pports := (pports h)[pp := (pports h ! pp)\<lparr>pconnected := b\<rparr>]\<rparr>"

text \<open>
  \<^verbatim>\<open>func (pp *ParamPort) Connect(otherParamPort *ParamPort)\<close>, branch by branch. The
  first branch exits the program before any flag is set.
\<close>

definition ParamPort_Connect :: "nat \<Rightarrow> nat \<Rightarrow> nat \<Rightarrow> pheap \<Rightarrow> error + pheap" where
  "ParamPort_Connect BUFSIZE pp otherParamPort h =
     (if \<not> (pp < length (pports h) \<and> otherParamPort < length (pports h)) then Inl NilPointerDereference
      else if Chan (pports h ! pp) \<noteq> None \<and> Chan (pports h ! otherParamPort) \<noteq> None then
        Inl BothParamPortsInitialized
      else
        (let h1 =
           (if Chan (pports h ! pp) \<noteq> None \<and> Chan (pports h ! otherParamPort) = None then
              setChan otherParamPort (Chan (pports h ! pp)) h
            else if Chan (pports h ! otherParamPort) \<noteq> None \<and> Chan (pports h ! pp) = None then
              setChan pp (Chan (pports h ! otherParamPort)) h
            else if Chan (pports h ! pp) = None \<and> Chan (pports h ! otherParamPort) = None then
              (let ch = length (pchans h);
                   h0 = h\<lparr>pchans := pchans h @ [BUFSIZE]\<rparr>
               in setChan otherParamPort (Some ch) (setChan pp (Some ch) h0))
            else h);
             h2 = ParamPort_SetConnectedStatus pp True h1
         in Inr (ParamPort_SetConnectedStatus otherParamPort True h2)))"

text \<open>
  Claim C6. Connecting two parameter ports that both hold a channel is the fatal error.
  Otherwise the call succeeds and afterwards both ports hold the same channel and both
  are marked connected: when neither held a channel it is a channel made by this call
  (the store gains exactly that one channel, of capacity \<^verbatim>\<open>BUFSIZE\<close>), when exactly one
  held a channel it is that channel and no channel is made.
\<close>

theorem ParamPort_Connect_shares_channel:
  assumes "pp < length (pports h)" and "other < length (pports h)"
  shows "(Chan (pports h ! pp) \<noteq> None \<and> Chan (pports h ! other) \<noteq> None \<longrightarrow>
            ParamPort_Connect B pp other h = Inl BothParamPortsInitialized) \<and>
         (Chan (pports h ! pp) = None \<or> Chan (pports h ! other) = None \<longrightarrow>
            (\<exists>h'. ParamPort_Connect B pp other h = Inr h' \<and>
               Chan (pports h' ! pp) = Chan (pports h' ! other) \<and>
               Chan (pports h' ! pp) \<noteq> None \<and>
               pconnected (pports h' ! pp) \<and> pconnected (pports h' ! other) \<and>
               (Chan (pports h ! pp) = None \<and> Chan (pports h ! other) = None \<longrightarrow>
                  Chan (pports h' ! pp) = Some (length (pchans h)) \<and> pchans h' = pchans h @ [B]) \<and>
               (Chan (pports h ! pp) \<noteq> None \<longrightarrow>
                  Chan (pports h' ! pp) = Chan (pports h ! pp) \<and> pchans h' = pchans h) \<and>
               (Chan (pports h ! other) \<noteq> None \<longrightarrow>
                  Chan (pports h' ! pp) = Chan (pports h ! other) \<and> pchans h' = pchans h)))"
  using assms
  by (auto simp: ParamPort_Connect_def setChan_def ParamPort_SetConnectedStatus_def
      nth_list_update Let_def)

theorem ParamPort_Connect_shares_channel_witness:
  "ParamPort_Connect 16 0 1
     \<lparr>pports = [\<lparr>Chan = None, pconnected = False\<rparr>, \<lparr>Chan = Some 0, pconnected = True\<rparr>],
      pchans = [16]\<rparr> =
   Inr \<lparr>pports = [\<lparr>Chan = Some 0, pconnected = True\<rparr>, \<lparr>Chan = Some 0, pconnected = True\<rparr>],
        pchans = [16]\<rparr> \<and>
   ParamPort_Connect 16 0 1
     \<lparr>pports = [\<lparr>Chan = None, pconnected = False\<rparr>, \<lparr>Chan = None, pconnected = False\<rparr>],
      pchans = [16]\<rparr> =
   Inr \<lparr>pports = [\<lparr>Chan = Some 1, pconnected = True\<rparr>, \<lparr>Chan = Some 1, pconnected = True\<rparr>],
        pchans = [16, 16]\<rparr> \<and>
   ParamPort_Connect 16 0 1
     \<lparr>pports = [\<lparr>Chan = Some 0, pconnected = True\<rparr>, \<lparr>Chan = Some 1, pconnected = True\<rparr>],
      pchans = [16, 16]\<rparr> = Inl BothParamPortsInitialized"
  using ParamPort_Connect_shares_channel[of 0
      "\<lparr>pports = [\<lparr>Chan = Some 0, pconnected = True\<rparr>, \<lparr>Chan = Some 1, pconnected = True\<rparr>],
      pchans = [16, 16]\<rparr>" 1 16]
  by (simp add: ParamPort_Connect_def setChan_def ParamPort_SetConnectedStatus_def)

section \<open>The merger of a FilePort\<close>

text \<open>
  \<^verbatim>\<open>RunMergeInputs\<close> only receives from its inbound channels, and each receive names
  the channel it blocks on. What it emits therefore depends only on what each inbound
  channel delivers, not on when: an inbound channel is modelled by the sequence of values
  its sender sends that the merger has not yet received (\<open>pending\<close>), and by whether the
  sender closes the channel after them (\<open>closes\<close>). A receive \<^verbatim>\<open>ip, ok := <-ich\<close>
  yields the next pending value; with none pending it yields \<^verbatim>\<open>ok = false\<close> when the
  channel is closed, and blocks for ever when the sender never closes it.
  The reader of the merged channel is assumed to keep receiving.
\<close>

record 'a chan =
  pending :: "'a list"
  closes :: bool

text \<open>
  One run of the inner loop \<^verbatim>\<open>for i, ich := range pt.inChans\<close>. The channels before
  position \<open>i\<close> have been received from in this sweep (first argument), those from
  position \<open>i\<close> on are still to visit (second argument). The result is what was sent on
  \<^verbatim>\<open>pt.InChan\<close>, and the new value of \<^verbatim>\<open>pt.inChans\<close>: the sweep ends at the end of the
  slice, or at the \<^verbatim>\<open>break\<close> after deleting the closed channel at position \<open>i\<close>;
  \<open>None\<close> is a receive that blocks for ever.
\<close>

fun sweep :: "'a chan list \<Rightarrow> 'a chan list \<Rightarrow> 'a list \<times> 'a chan list option" where
  "sweep visited [] = ([], Some visited)"
| "sweep visited (ich # rest) =
     (case pending ich of
        ip # ips \<Rightarrow>
          (let (out, r) = sweep (visited @ [ich\<lparr>pending := ips\<rparr>]) rest in (ip # out, r))
      | [] \<Rightarrow> if closes ich then ([], Some (visited @ rest)) else ([], None))"

definition chan_load :: "'a chan list \<Rightarrow> nat" where
  "chan_load chs = sum_list (map (\<lambda>c. length (pending c)) chs) + length chs"

lemma sweep_load:
  "sweep visited todo = (out, Some chs') \<Longrightarrow>
     chan_load chs' + length out \<le> chan_load (visited @ todo) \<and>
     (todo \<noteq> [] \<longrightarrow> chan_load chs' < chan_load (visited @ todo))"
proof (induction todo arbitrary: visited out)
  case Nil
  then show ?case by simp
next
  case (Cons ich rest)
  show ?case
  proof (cases "pending ich")
    case Nil
    with Cons.prems show ?thesis
      by (auto simp: chan_load_def split: if_splits)
  next
    case (Cons ip ips)
    with Cons.prems obtain out' where
      s: "sweep (visited @ [ich\<lparr>pending := ips\<rparr>]) rest = (out', Some chs')" and o: "out = ip # out'"
      by (auto split: prod.splits)
    from Cons.IH[OF s] Cons o show ?thesis
      by (auto simp: chan_load_def)
  qed
qed

text \<open>
  \<^verbatim>\<open>func (pt *FilePort) RunMergeInputs()\<close>: the outer loop runs sweeps while
  \<^verbatim>\<open>pt.inChans\<close> is non-empty. The result is the sequence sent on the merged channel
  \<^verbatim>\<open>pt.InChan\<close> and whether the function returns, which is when the deferred
  \<^verbatim>\<open>close(pt.InChan)\<close> runs.
\<close>

function RunMergeInputs :: "'a chan list \<Rightarrow> 'a list \<times> bool" where
  "RunMergeInputs chs =
     (if chs = [] then ([], True)
      else (case sweep [] chs of
              (out, None) \<Rightarrow> (out, False)
            | (out, Some chs') \<Rightarrow>
                (let (out', closed) = RunMergeInputs chs' in (out @ out', closed))))"
  by pat_completeness auto
termination
proof (relation "measure chan_load")
  show "wf (measure chan_load)" by simp
next
  fix chs :: "'a chan list" and out r chs'
  assume "chs \<noteq> []" "(out, r) = sweep [] chs" "r = Some chs'"
  then have "sweep [] chs = (out, Some chs')" by simp
  from sweep_load[OF this] \<open>chs \<noteq> []\<close>
  show "(chs', chs) \<in> measure chan_load" by simp
qed

text \<open>
  To tell apart the IPs of different inbound channels, each is tagged with the position
  of its channel in \<^verbatim>\<open>pt.inChans\<close> at the start.
\<close>

fun tag_from :: "nat \<Rightarrow> 'a chan list \<Rightarrow> (nat \<times> 'a) chan list" where
  "tag_from n [] = []"
| "tag_from n (c # cs) = \<lparr>pending = map (Pair n) (pending c), closes = closes c\<rparr> # tag_from (Suc n) cs"

definition tagged :: "'a chan list \<Rightarrow> (nat \<times> 'a) chan list" where
  "tagged chs = tag_from 0 chs"

declare RunMergeInputs.simps [simp del]

subsection \<open>What the merger emits\<close>

lemma sweep_closes:
  "\<forall>c \<in> set (visited @ todo). closes c \<Longrightarrow>
     \<exists>out chs'. sweep visited todo = (out, Some chs') \<and> (\<forall>c \<in> set chs'. closes c)"
proof (induction todo arbitrary: visited)
  case Nil
  then show ?case by simp
next
  case (Cons ich rest)
  show ?case
  proof (cases "pending ich")
    case Nil
    with Cons.prems show ?thesis by simp
  next
    case (Cons ip ips)
    have "\<forall>c \<in> set ((visited @ [ich\<lparr>pending := ips\<rparr>]) @ rest). closes c"
      using Cons.prems by auto
    from Cons.IH[OF this] Cons show ?thesis by auto
  qed
qed

lemma sweep_closes_back:
  "sweep visited todo = (out, Some chs') \<Longrightarrow> \<forall>c \<in> set chs'. closes c \<Longrightarrow>
     \<forall>c \<in> set (visited @ todo). closes c"
proof (induction todo arbitrary: visited out)
  case Nil
  then show ?case by simp
next
  case (Cons ich rest)
  show ?case
  proof (cases "pending ich")
    case Nil
    with Cons.prems show ?thesis by (auto split: if_splits)
  next
    case (Cons ip ips)
    with Cons.prems obtain out' where
      s: "sweep (visited @ [ich\<lparr>pending := ips\<rparr>]) rest = (out', Some chs')"
      by (auto split: prod.splits)
    from Cons.IH[OF s Cons.prems(2)] show ?thesis by auto
  qed
qed

lemma sweep_mset:
  "sweep visited todo = (out, Some chs') \<Longrightarrow>
     mset out + (\<Sum>c\<leftarrow>chs'. mset (pending c)) = (\<Sum>c\<leftarrow>visited @ todo. mset (pending c))"
proof (induction todo arbitrary: visited out)
  case Nil
  then show ?case by simp
next
  case (Cons ich rest)
  show ?case
  proof (cases "pending ich")
    case Nil
    with Cons.prems show ?thesis by (auto split: if_splits)
  next
    case (Cons ip ips)
    with Cons.prems obtain out' where
      s: "sweep (visited @ [ich\<lparr>pending := ips\<rparr>]) rest = (out', Some chs')" and o: "out = ip # out'"
      by (auto split: prod.splits)
    from Cons.IH[OF s] o Cons show ?thesis by simp
  qed
qed

lemma RunMergeInputs_all_close:
  "\<forall>c \<in> set chs. closes c \<Longrightarrow>
     snd (RunMergeInputs chs) \<and>
     mset (fst (RunMergeInputs chs)) = (\<Sum>c\<leftarrow>chs. mset (pending c))"
proof (induction chs rule: RunMergeInputs.induct)
  case (1 chs)
  show ?case
  proof (cases "chs = []")
    case True
    then show ?thesis by (simp add: RunMergeInputs.simps)
  next
    case False
    from sweep_closes[of "[]" chs] "1.prems" obtain out chs' where
      s: "sweep [] chs = (out, Some chs')" and c: "\<forall>c \<in> set chs'. closes c" by auto
    from "1.IH"[OF False s[symmetric] refl c]
    have IH: "snd (RunMergeInputs chs')"
      "mset (fst (RunMergeInputs chs')) = (\<Sum>c\<leftarrow>chs'. mset (pending c))" by auto
    have R: "RunMergeInputs chs = (out @ fst (RunMergeInputs chs'), snd (RunMergeInputs chs'))"
      using False s by (subst RunMergeInputs.simps) (simp add: split_beta)
    from sweep_mset[OF s] IH R show ?thesis by simp
  qed
qed

lemma RunMergeInputs_closed_only_if:
  "snd (RunMergeInputs chs) \<Longrightarrow> \<forall>c \<in> set chs. closes c"
proof (induction chs rule: RunMergeInputs.induct)
  case (1 chs)
  show ?case
  proof (cases "chs = []")
    case True
    then show ?thesis by simp
  next
    case False
    obtain out r where s: "sweep [] chs = (out, r)" by (cases "sweep [] chs")
    show ?thesis
    proof (cases r)
      case None
      with s False "1.prems" show ?thesis
        by (subst (asm) RunMergeInputs.simps) simp
    next
      case (Some chs')
      with s False "1.prems" have "snd (RunMergeInputs chs')"
        by (subst (asm) RunMergeInputs.simps) (simp add: split_beta)
      from "1.IH"[OF False s[symmetric] Some this] have "\<forall>c \<in> set chs'. closes c" .
      from sweep_closes_back[OF s[unfolded Some] this] show ?thesis by simp
    qed
  qed
qed

text \<open>The channels that carry a value satisfying \<open>P\<close>.\<close>

definition carries :: "('a \<Rightarrow> bool) \<Rightarrow> 'a chan \<Rightarrow> bool" where
  "carries P c \<longleftrightarrow> (\<exists>x \<in> set (pending c). P x)"

lemma not_carries_filter: "\<not> carries P c \<Longrightarrow> filter P (pending c) = []"
  by (auto simp: carries_def filter_empty_conv)

lemma no_carrier_concat:
  "filter (carries P) chs = [] \<Longrightarrow> concat (map (\<lambda>c. filter P (pending c)) chs) = []"
  by (induction chs) (auto simp: not_carries_filter split: if_splits)

lemma sweep_proj:
  assumes "length (filter (carries P) (visited @ todo)) \<le> 1"
    and "sweep visited todo = (out, Some chs')"
  shows "filter P out @ concat (map (\<lambda>c. filter P (pending c)) chs')
           = concat (map (\<lambda>c. filter P (pending c)) (visited @ todo)) \<and>
         length (filter (carries P) chs') \<le> 1"
  using assms
proof (induction todo arbitrary: visited out)
  case Nil
  then show ?case by simp
next
  case (Cons ich rest)
  show ?case
  proof (cases "pending ich")
    case Nil
    then have "filter P (pending ich) = []" by simp
    with Nil Cons.prems show ?thesis
      by (auto split: if_splits)
  next
    case (Cons ip ips)
    let ?ich' = "ich\<lparr>pending := ips\<rparr>"
    from Cons Cons.prems(2) obtain out' where
      s: "sweep (visited @ [?ich']) rest = (out', Some chs')" and o: "out = ip # out'"
      by (auto split: prod.splits)
    have sub: "carries P ?ich' \<Longrightarrow> carries P ich"
      using Cons by (auto simp: carries_def)
    have le: "length (filter (carries P) ((visited @ [?ich']) @ rest)) \<le> 1"
      using Cons.prems(1) sub by (auto split: if_splits)
    from Cons.IH[OF le s]
    have IH: "filter P out' @ concat (map (\<lambda>c. filter P (pending c)) chs')
           = concat (map (\<lambda>c. filter P (pending c)) visited) @ filter P ips
               @ concat (map (\<lambda>c. filter P (pending c)) rest)"
      and solo: "length (filter (carries P) chs') \<le> 1" by auto
    show ?thesis
    proof (cases "P ip")
      case False
      with IH solo o Cons show ?thesis by simp
    next
      case True
      then have "carries P ich" using Cons by (auto simp: carries_def)
      with Cons.prems(1) have "filter (carries P) visited = []" by auto
      then have "concat (map (\<lambda>c. filter P (pending c)) visited) = []"
        by (rule no_carrier_concat)
      with IH solo o Cons True show ?thesis by simp
    qed
  qed
qed

lemma RunMergeInputs_proj:
  "\<forall>c \<in> set chs. closes c \<Longrightarrow> length (filter (carries P) chs) \<le> 1 \<Longrightarrow>
     filter P (fst (RunMergeInputs chs)) = concat (map (\<lambda>c. filter P (pending c)) chs)"
proof (induction chs rule: RunMergeInputs.induct)
  case (1 chs)
  show ?case
  proof (cases "chs = []")
    case True
    then show ?thesis by (simp add: RunMergeInputs.simps)
  next
    case False
    from sweep_closes[of "[]" chs] "1.prems"(1) obtain out chs' where
      s: "sweep [] chs = (out, Some chs')" and c: "\<forall>c \<in> set chs'. closes c" by auto
    from sweep_proj[of P "[]" chs out chs'] "1.prems"(2) s
    have p: "filter P out @ concat (map (\<lambda>c. filter P (pending c)) chs')
           = concat (map (\<lambda>c. filter P (pending c)) chs)"
      and solo: "length (filter (carries P) chs') \<le> 1" by auto
    from "1.IH"[OF False s[symmetric] refl c solo]
    have IH: "filter P (fst (RunMergeInputs chs')) = concat (map (\<lambda>c. filter P (pending c)) chs')" .
    have R: "RunMergeInputs chs = (out @ fst (RunMergeInputs chs'), snd (RunMergeInputs chs'))"
      using False s by (subst RunMergeInputs.simps) (simp add: split_beta)
    from p IH R show ?thesis by simp
  qed
qed

subsection \<open>Tags\<close>

lemma tag_from_closes: "(\<forall>c \<in> set (tag_from n chs). closes c) \<longleftrightarrow> (\<forall>c \<in> set chs. closes c)"
  by (induction chs arbitrary: n) auto

lemma tag_from_no_carrier:
  "i < n \<Longrightarrow> filter (carries (\<lambda>p. fst p = i)) (tag_from n chs) = []"
  by (induction chs arbitrary: n) (auto simp: carries_def)

lemma tag_from_solo: "length (filter (carries (\<lambda>p. fst p = i)) (tag_from n chs)) \<le> 1"
proof (induction chs arbitrary: n)
  case Nil
  then show ?case by simp
next
  case (Cons c cs)
  show ?case
  proof (cases "carries (\<lambda>p. fst p = i) \<lparr>pending = map (Pair n) (pending c), closes = closes c\<rparr>")
    case True
    then have "i = n" by (auto simp: carries_def)
    then have "filter (carries (\<lambda>p. fst p = i)) (tag_from (Suc n) cs) = []"
      by (simp add: tag_from_no_carrier)
    with True show ?thesis by simp
  next
    case False
    with Cons.IH[of "Suc n"] show ?thesis by simp
  qed
qed

lemma tag_from_proj:
  "concat (map (\<lambda>c. filter (\<lambda>p. fst p = i) (pending c)) (tag_from n chs)) =
     (if n \<le> i \<and> i < n + length chs then map (Pair i) (pending (chs ! (i - n))) else [])"
proof (induction chs arbitrary: n)
  case Nil
  then show ?case by auto
next
  case (Cons c cs)
  have here: "filter (\<lambda>p. fst p = i) (map (Pair n) (pending c)) = (if i = n then map (Pair i) (pending c) else [])"
    by (auto simp: filter_map o_def filter_empty_conv)
  show ?case
  proof (cases "i = n")
    case True
    then have "concat (map (\<lambda>c. filter (\<lambda>p. fst p = i) (pending c)) (tag_from (Suc n) cs)) = []"
      using Cons.IH[of "Suc n"] by simp
    with True here show ?thesis by simp
  next
    case False
    with here Cons.IH[of "Suc n"] show ?thesis
      by (auto simp: Suc_diff_le not_le less_Suc_eq_le)
  qed
qed

subsection \<open>Erasing tags\<close>

definition image_chan :: "('a \<Rightarrow> 'b) \<Rightarrow> 'a chan \<Rightarrow> 'b chan \<Rightarrow> bool" where
  "image_chan g c1 c2 \<longleftrightarrow> pending c2 = map g (pending c1) \<and> closes c2 = closes c1"

lemma sweep_image:
  "list_all2 (image_chan g) todo1 todo2 \<Longrightarrow> list_all2 (image_chan g) visited1 visited2 \<Longrightarrow>
     fst (sweep visited2 todo2) = map g (fst (sweep visited1 todo1)) \<and>
     rel_option (list_all2 (image_chan g)) (snd (sweep visited1 todo1)) (snd (sweep visited2 todo2))"
proof (induction todo1 todo2 arbitrary: visited1 visited2 rule: list_all2_induct)
  case Nil
  then show ?case by simp
next
  case (Cons c1 cs1 c2 cs2)
  show ?case
  proof (cases "pending c1")
    case Nil
    with Cons.hyps(1) have "pending c2 = []" "closes c2 = closes c1"
      by (auto simp: image_chan_def)
    with Nil Cons.hyps(2) Cons.prems show ?thesis
      by (auto simp: list_all2_appendI)
  next
    case (Cons ip ips)
    with Cons.hyps(1) have p2: "pending c2 = g ip # map g ips"
      by (auto simp: image_chan_def)
    have "image_chan g (c1\<lparr>pending := ips\<rparr>) (c2\<lparr>pending := map g ips\<rparr>)"
      using Cons.hyps(1) by (simp add: image_chan_def)
    with Cons.prems have "list_all2 (image_chan g) (visited1 @ [c1\<lparr>pending := ips\<rparr>]) (visited2 @ [c2\<lparr>pending := map g ips\<rparr>])"
      by (simp add: list_all2_appendI)
    from Cons.IH[OF this] Cons p2 show ?thesis
      by (simp add: split_beta)
  qed
qed

lemma RunMergeInputs_image:
  "list_all2 (image_chan g) chs1 chs2 \<Longrightarrow>
     RunMergeInputs chs2 = (map g (fst (RunMergeInputs chs1)), snd (RunMergeInputs chs1))"
proof (induction chs1 arbitrary: chs2 rule: RunMergeInputs.induct)
  case (1 chs1)
  show ?case
  proof (cases "chs1 = []")
    case True
    with "1.prems" show ?thesis by (simp add: RunMergeInputs.simps)
  next
    case False
    with "1.prems" have ne2: "chs2 \<noteq> []" by auto
    obtain out1 r1 where s1: "sweep [] chs1 = (out1, r1)" by (cases "sweep [] chs1")
    obtain out2 r2 where s2: "sweep [] chs2 = (out2, r2)" by (cases "sweep [] chs2")
    from sweep_image[OF "1.prems", of "[]" "[]"] s1 s2
    have o: "out2 = map g out1" and r: "rel_option (list_all2 (image_chan g)) r1 r2" by auto
    show ?thesis
    proof (cases r1)
      case None
      with r have "r2 = None" by simp
      with None s1 s2 o False ne2 show ?thesis
        by (simp add: RunMergeInputs.simps[of chs1] RunMergeInputs.simps[of chs2])
    next
      case (Some chs1')
      with r obtain chs2' where r2: "r2 = Some chs2'" and rel: "list_all2 (image_chan g) chs1' chs2'"
        by (cases r2) auto
      from "1.IH"[OF False s1[symmetric] Some rel]
      have "RunMergeInputs chs2' = (map g (fst (RunMergeInputs chs1')), snd (RunMergeInputs chs1'))" .
      with Some r2 s1 s2 o False ne2 show ?thesis
        by (simp add: RunMergeInputs.simps[of chs1] RunMergeInputs.simps[of chs2] split_beta)
    qed
  qed
qed

lemma tag_from_image: "list_all2 (image_chan snd) (tag_from n chs) chs"
  by (induction chs arbitrary: n) (auto simp: image_chan_def o_def)

lemma size_sum_list_mset: "size (\<Sum>c\<leftarrow>chs. mset (pending c)) = (\<Sum>c\<leftarrow>chs. length (pending c))"
  by (induction chs) auto

text \<open>
  Claim C3. The merger closes the merged channel exactly when every inbound channel is
  closed by its sender (it deletes a channel only on a receive that reports the channel
  closed and empty, and returns only when all are deleted). When that is so, for any
  number of inbound channels, the IPs emitted on the merged channel are, counted with
  multiplicity, exactly the IPs sent on the inbound channels, so their number is the
  total number sent; and with every IP tagged by its inbound channel, the emitted IPs
  tagged \<open>i\<close> are exactly the sequence sent on channel \<open>i\<close>, in the order sent
  (erasing the tags gives back the merge of the untagged channels).
\<close>

theorem RunMergeInputs_forwards_all:
  "(snd (RunMergeInputs chs) \<longleftrightarrow> (\<forall>c \<in> set chs. closes c)) \<and>
   ((\<forall>c \<in> set chs. closes c) \<longrightarrow>
      mset (fst (RunMergeInputs chs)) = (\<Sum>c\<leftarrow>chs. mset (pending c)) \<and>
      length (fst (RunMergeInputs chs)) = (\<Sum>c\<leftarrow>chs. length (pending c)) \<and>
      map snd (fst (RunMergeInputs (tagged chs))) = fst (RunMergeInputs chs) \<and>
      (\<forall>i < length chs.
         map snd (filter (\<lambda>p. fst p = i) (fst (RunMergeInputs (tagged chs)))) = pending (chs ! i)))"
proof (intro conjI impI)
  show "snd (RunMergeInputs chs) \<longleftrightarrow> (\<forall>c \<in> set chs. closes c)"
    using RunMergeInputs_closed_only_if RunMergeInputs_all_close by blast
next
  assume c: "\<forall>c \<in> set chs. closes c"
  show m: "mset (fst (RunMergeInputs chs)) = (\<Sum>c\<leftarrow>chs. mset (pending c))"
    using RunMergeInputs_all_close[OF c] by simp
  have "length (fst (RunMergeInputs chs)) = size (mset (fst (RunMergeInputs chs)))" by simp
  also have "\<dots> = (\<Sum>c\<leftarrow>chs. length (pending c))"
    unfolding m by (rule size_sum_list_mset)
  finally show "length (fst (RunMergeInputs chs)) = (\<Sum>c\<leftarrow>chs. length (pending c))" .
  show "map snd (fst (RunMergeInputs (tagged chs))) = fst (RunMergeInputs chs)"
    using RunMergeInputs_image[OF tag_from_image[of 0 chs]] by (simp add: tagged_def)
  show "\<forall>i < length chs.
         map snd (filter (\<lambda>p. fst p = i) (fst (RunMergeInputs (tagged chs)))) = pending (chs ! i)"
  proof (intro allI impI)
    fix i assume i: "i < length chs"
    have tc: "\<forall>c \<in> set (tag_from 0 chs). closes c"
      using c by (simp add: tag_from_closes)
    have "filter (\<lambda>p. fst p = i) (fst (RunMergeInputs (tagged chs))) = map (Pair i) (pending (chs ! i))"
      using RunMergeInputs_proj[OF tc tag_from_solo[of i 0 chs]] i
      by (simp add: tagged_def tag_from_proj)
    then show "map snd (filter (\<lambda>p. fst p = i) (fst (RunMergeInputs (tagged chs)))) = pending (chs ! i)"
      by (simp add: o_def)
  qed
qed

theorem RunMergeInputs_forwards_all_witness:
  "RunMergeInputs [\<lparr>pending = [1::nat, 2, 3], closes = True\<rparr>, \<lparr>pending = [10], closes = True\<rparr>,
                   \<lparr>pending = [20, 21], closes = True\<rparr>] = ([1, 10, 20, 2, 3, 21], True) \<and>
   map snd (filter (\<lambda>p. fst p = 2)
     (fst (RunMergeInputs (tagged [\<lparr>pending = [1::nat, 2, 3], closes = True\<rparr>,
        \<lparr>pending = [10], closes = True\<rparr>, \<lparr>pending = [20, 21], closes = True\<rparr>])))) = [20, 21] \<and>
   RunMergeInputs [\<lparr>pending = [1::nat], closes = False\<rparr>, \<lparr>pending = [10, 11], closes = True\<rparr>]
     = ([1, 10], False)"
proof -
  have 1: "RunMergeInputs [\<lparr>pending = [1::nat, 2, 3], closes = True\<rparr>, \<lparr>pending = [10], closes = True\<rparr>,
                   \<lparr>pending = [20, 21], closes = True\<rparr>] = ([1, 10, 20, 2, 3, 21], True)"
    by (simp add: RunMergeInputs.simps)
  have 2: "RunMergeInputs [\<lparr>pending = [1::nat], closes = False\<rparr>, \<lparr>pending = [10, 11], closes = True\<rparr>]
     = ([1, 10], False)"
    by (simp add: RunMergeInputs.simps)
  from RunMergeInputs_forwards_all[of "[\<lparr>pending = [1::nat, 2, 3], closes = True\<rparr>,
        \<lparr>pending = [10], closes = True\<rparr>, \<lparr>pending = [20, 21], closes = True\<rparr>]"] 1 2
  show ?thesis by simp
qed

section \<open>File targets\<close>

text \<open>
  A file target (\<^verbatim>\<open>FileTarget\<close>, in the later sources \<^verbatim>\<open>InformationPacket\<close>): the final
  path and the streaming flag. The constructor sets only the path.
\<close>

record FileTarget =
  path :: string
  doStream :: bool

definition NewFileTarget :: "string \<Rightarrow> FileTarget" where
  "NewFileTarget p = \<lparr>path = p, doStream = False\<rparr>"

definition GetPath :: "FileTarget \<Rightarrow> string" where
  "GetPath ip = path ip"

definition GetTempPath :: "FileTarget \<Rightarrow> string" where
  "GetTempPath ip = path ip @ ''.tmp''"

definition GetFifoPath :: "FileTarget \<Rightarrow> string" where
  "GetFifoPath ip = path ip @ ''.fifo''"

section \<open>The placeholder language\<close>

text \<open>
  The regular expression \<^verbatim>\<open>{(o|os|i|is|p):([^{}:]+)}\<close>, as a matcher at the head of a
  string. After the opening brace the alternatives are tried in the order written; an
  alternative fits when it is followed by a colon, a non-empty maximal run of characters
  other than \<^verbatim>\<open>{\<close>, \<^verbatim>\<open>}\<close> and \<^verbatim>\<open>:\<close>, and a closing brace (the run has to be maximal
  because the character after it has to be the closing brace). The three characters are
  ASCII, so matching bytes and matching UTF-8 runes agree.
\<close>

definition nameChar :: "char \<Rightarrow> bool" where
  "nameChar c \<longleftrightarrow> c \<noteq> CHR ''{'' \<and> c \<noteq> CHR ''}'' \<and> c \<noteq> CHR '':''"

definition matchKind :: "string \<Rightarrow> string \<Rightarrow> (string \<times> string) option" where
  "matchKind k s =
     (if prefix (k @ '':'') s then
        (let r = drop (length k + 1) s;
             name = takeWhile nameChar r;
             r' = dropWhile nameChar r
         in if name \<noteq> [] \<and> r' \<noteq> [] \<and> hd r' = CHR ''}'' then Some (name, tl r') else None)
      else None)"

fun matchKinds :: "string list \<Rightarrow> string \<Rightarrow> (string \<times> string \<times> string) option" where
  "matchKinds [] s = None"
| "matchKinds (k # ks) s =
     (case matchKind k s of Some (name, rest) \<Rightarrow> Some (k, name, rest) | None \<Rightarrow> matchKinds ks s)"

text \<open>A match at the head of the string: the whole match, its two groups, and the rest.\<close>

definition matchAt :: "string \<Rightarrow> (string \<times> string \<times> string \<times> string) option" where
  "matchAt s =
     (case s of
        [] \<Rightarrow> None
      | c # s' \<Rightarrow>
          if c = CHR ''{'' then
            (case matchKinds [''o'', ''os'', ''i'', ''is'', ''p''] s' of
               Some (typ, name, rest) \<Rightarrow> Some (''{'' @ typ @ '':'' @ name @ ''}'', typ, name, rest)
             | None \<Rightarrow> None)
          else None)"

lemma matchKind_rest:
  "matchKind k s = Some (name, rest) \<Longrightarrow> s = k @ '':'' @ name @ ''}'' @ rest \<and> name \<noteq> [] \<and> (\<forall>c \<in> set name. nameChar c)"
proof -
  assume a: "matchKind k s = Some (name, rest)"
  let ?r = "drop (length k + 1) s"
  from a have p: "prefix (k @ '':'') s" and n: "name = takeWhile nameChar ?r"
    and ne: "name \<noteq> []" and r': "dropWhile nameChar ?r \<noteq> []"
    "hd (dropWhile nameChar ?r) = CHR ''}''" "rest = tl (dropWhile nameChar ?r)"
    by (auto simp: matchKind_def Let_def split: if_splits)
  from p have s: "s = k @ '':'' @ ?r" by (auto simp: prefix_def)
  have "?r = takeWhile nameChar ?r @ dropWhile nameChar ?r" by simp
  also have "dropWhile nameChar ?r = CHR ''}'' # rest"
    using r' by (cases "dropWhile nameChar ?r") auto
  finally have "?r = name @ ''}'' @ rest" using n by simp
  with s have "s = k @ '':'' @ name @ ''}'' @ rest" by simp
  moreover have "\<forall>c \<in> set name. nameChar c" using n by (auto dest: set_takeWhileD)
  ultimately show ?thesis using ne by blast
qed

lemma matchAt_rest:
  "matchAt s = Some (whole, typ, name, rest) \<Longrightarrow> s = whole @ rest \<and> whole \<noteq> []"
  by (auto simp: matchAt_def split: list.splits if_splits option.splits dest!: matchKind_rest)

text \<open>
  \<^verbatim>\<open>r.FindAllStringSubmatch(cmd, -1)\<close>: all successive non-overlapping matches, leftmost
  first, each with its two groups. After a match the search goes on behind it.
\<close>

function findAll :: "string \<Rightarrow> (string \<times> string \<times> string) list" where
  "findAll [] = []"
| "findAll (c # cs) =
     (case matchAt (c # cs) of
        Some (whole, typ, name, rest) \<Rightarrow> (whole, typ, name) # findAll rest
      | None \<Rightarrow> findAll cs)"
  by pat_completeness auto
termination
proof (relation "measure length")
  show "wf (measure length)" by simp
next
  fix c cs show "(cs, c # cs) \<in> measure length" by simp
next
  fix c :: char and cs x2 whole y ty ya name rest
  assume "matchAt (c # cs) = Some x2" "(whole, y) = x2" "(ty, ya) = y" "(name, rest) = ya"
  then have "matchAt (c # cs) = Some (whole, ty, name, rest)" by simp
  from matchAt_rest[OF this] show "(rest, c # cs) \<in> measure length"
    by (cases whole) auto
qed

text \<open>
  \<^verbatim>\<open>strings.Replace(s, old, new, -1)\<close>: every non-overlapping occurrence of \<open>old\<close>,
  found from left to right, is replaced. The formatter calls it with a match of the
  regular expression as \<open>old\<close>, which is never empty; for an empty \<open>old\<close> Go inserts
  \<open>new\<close> around every rune, which is not modelled (the string is returned as it is).
\<close>

function replaceAll :: "string \<Rightarrow> string \<Rightarrow> string \<Rightarrow> string" where
  "replaceAll [] old new = []"
| "replaceAll (c # cs) old new =
     (if old \<noteq> [] \<and> prefix old (c # cs) then new @ replaceAll (drop (length old) (c # cs)) old new
      else c # replaceAll cs old new)"
  by pat_completeness auto
termination
  by (relation "measure (\<lambda>(s, old, new). length s)") auto

section \<open>The command formatter\<close>

text \<open>
  Modelled from the spec: the helper \<^verbatim>\<open>Check\<close>, which the sources call with an error
  value and which is not among them. The spec (section 7) says that these errors are
  fatal: they are logged and then the process is terminated. So \<^verbatim>\<open>Check\<close> on an error
  ends the computation with that error, and on \<^verbatim>\<open>nil\<close> the computation continues.
\<close>

definition Check :: "error option \<Rightarrow> (error + 'a) \<Rightarrow> error + 'a" where
  "Check err continue = (case err of Some e \<Rightarrow> Inl e | None \<Rightarrow> continue)"

text \<open>
  Go maps of pointers: reading an absent key and reading a key bound to \<^verbatim>\<open>nil\<close> both
  give \<^verbatim>\<open>nil\<close>, which is \<open>None\<close> here. Reading an absent key of a map of strings
  gives the empty string.
\<close>

definition paramValue :: "(string \<rightharpoonup> string) \<Rightarrow> string \<Rightarrow> string" where
  "paramValue params name = (case params name of None \<Rightarrow> [] | Some v \<Rightarrow> v)"

text \<open>
  The body of the loop of \<^verbatim>\<open>formatCommand\<close> up to the computation of \<^verbatim>\<open>newstr\<close>,
  which starts as the empty string. The error messages carry the command as it is at
  that moment.
\<close>

definition newstrFor ::
  "(string \<rightharpoonup> FileTarget) \<Rightarrow> (string \<rightharpoonup> FileTarget) \<Rightarrow> (string \<rightharpoonup> string) \<Rightarrow>
     string \<Rightarrow> string \<Rightarrow> string \<Rightarrow> error + string" where
  "newstrFor inTargets outTargets params cmd typ name =
     (if typ = ''o'' \<or> typ = ''os'' then
        (case outTargets name of
           None \<Rightarrow> Check (Some (MissingOutpath name cmd)) (Inr [])
         | Some tgt \<Rightarrow>
             if typ = ''o'' then Inr (GetTempPath tgt)
             else if typ = ''os'' then Inr (GetFifoPath tgt)
             else Inr [])
      else if typ = ''i'' then
        (case inTargets name of
           None \<Rightarrow> Check (Some (MissingIntarget name cmd)) (Inr [])
         | Some tgt \<Rightarrow>
             if GetPath tgt = [] then Check (Some (MissingInpath name cmd)) (Inr [])
             else if typ = ''i'' then
               (if doStream tgt then Inr (GetFifoPath tgt) else Inr (GetPath tgt))
             else Inr [])
      else if typ = ''p'' then
        (if paramValue params name = [] then Check (Some (MissingParam name cmd)) (Inr [])
         else Inr (paramValue params name))
      else Inr [])"

definition formatStep ::
  "(string \<rightharpoonup> FileTarget) \<Rightarrow> (string \<rightharpoonup> FileTarget) \<Rightarrow> (string \<rightharpoonup> string) \<Rightarrow>
     string \<times> string \<times> string \<Rightarrow> string \<Rightarrow> error + string" where
  "formatStep inTargets outTargets params m cmd =
     (case m of (whole, typ, name) \<Rightarrow>
        (case newstrFor inTargets outTargets params cmd typ name of
           Inl e \<Rightarrow> Inl e
         | Inr newstr \<Rightarrow>
             Check (if newstr = [] then Some (ReplaceFailed name cmd) else None)
               (Inr (replaceAll cmd whole newstr))))"

fun formatLoop ::
  "(string \<rightharpoonup> FileTarget) \<Rightarrow> (string \<rightharpoonup> FileTarget) \<Rightarrow> (string \<rightharpoonup> string) \<Rightarrow>
     (string \<times> string \<times> string) list \<Rightarrow> string \<Rightarrow> error + string" where
  "formatLoop inTargets outTargets params [] cmd = Inr cmd"
| "formatLoop inTargets outTargets params (m # ms) cmd =
     (case formatStep inTargets outTargets params m cmd of
        Inl e \<Rightarrow> Inl e
      | Inr cmd' \<Rightarrow> formatLoop inTargets outTargets params ms cmd')"

text \<open>
  \<^verbatim>\<open>formatCommand(cmd, inTargets, outTargets, params, prepend)\<close>: the matches are
  those of the template as given; the loop rewrites the command match after match.
\<close>

definition formatCommand ::
  "string \<Rightarrow> (string \<rightharpoonup> FileTarget) \<Rightarrow> (string \<rightharpoonup> FileTarget) \<Rightarrow> (string \<rightharpoonup> string) \<Rightarrow>
     string \<Rightarrow> error + string" where
  "formatCommand cmd inTargets outTargets params prepend =
     (case formatLoop inTargets outTargets params (findAll cmd) cmd of
        Inl e \<Rightarrow> Inl e
      | Inr cmd' \<Rightarrow> Inr (if prepend \<noteq> [] then prepend @ '' '' @ cmd' else cmd'))"

subsection \<open>The substitution as the specification words it\<close>

text \<open>
  The binding of a placeholder: \<^verbatim>\<open>{o:N}\<close> is bound to the temp path of output \<open>N\<close>,
  \<^verbatim>\<open>{os:N}\<close> to its FIFO path, \<^verbatim>\<open>{i:N}\<close> to the FIFO path of input \<open>N\<close> when that
  input is streaming and to its final path otherwise, \<^verbatim>\<open>{p:N}\<close> to the value of
  parameter \<open>N\<close>. A binding is missing for an unknown port, an empty input path and an
  empty parameter; a placeholder of another kind has no binding.
\<close>

definition binding ::
  "(string \<rightharpoonup> FileTarget) \<Rightarrow> (string \<rightharpoonup> FileTarget) \<Rightarrow> (string \<rightharpoonup> string) \<Rightarrow>
     string \<Rightarrow> string \<Rightarrow> string option" where
  "binding inTargets outTargets params typ name =
     (if typ = ''o'' then map_option (\<lambda>t. path t @ ''.tmp'') (outTargets name)
      else if typ = ''os'' then map_option (\<lambda>t. path t @ ''.fifo'') (outTargets name)
      else if typ = ''i'' then
        (case inTargets name of
           None \<Rightarrow> None
         | Some t \<Rightarrow> if path t = [] then None
                     else Some (if doStream t then path t @ ''.fifo'' else path t))
      else if typ = ''p'' then
        (case params name of None \<Rightarrow> None | Some v \<Rightarrow> if v = [] then None else Some v)
      else None)"

text \<open>
  One pass over the template that replaces each placeholder by its binding (and drops a
  placeholder without binding).
\<close>

function substitute :: "(string \<Rightarrow> string \<Rightarrow> string option) \<Rightarrow> string \<Rightarrow> string" where
  "substitute b [] = []"
| "substitute b (c # cs) =
     (case matchAt (c # cs) of
        Some (whole, typ, name, rest) \<Rightarrow>
          (case b typ name of Some v \<Rightarrow> v | None \<Rightarrow> []) @ substitute b rest
      | None \<Rightarrow> c # substitute b cs)"
  by pat_completeness auto
termination
proof (relation "measure (\<lambda>(b, s). length s)")
  show "wf (measure (\<lambda>(b, s). length s))" by simp
next
  fix b :: "string \<Rightarrow> string \<Rightarrow> string option" and c :: char and cs
  show "((b, cs), (b, c # cs)) \<in> measure (\<lambda>(b, s). length s)" by simp
next
  fix b :: "string \<Rightarrow> string \<Rightarrow> string option" and c :: char and cs x2 whole y ty ya name rest
  assume "matchAt (c # cs) = Some x2" "(whole, y) = x2" "(ty, ya) = y" "(name, rest) = ya"
  then have "matchAt (c # cs) = Some (whole, ty, name, rest)" by simp
  from matchAt_rest[OF this] show "((b, rest), (b, c # cs)) \<in> measure (\<lambda>(b, s). length s)"
    by (cases whole) auto
qed

definition withPrepend :: "string \<Rightarrow> string \<Rightarrow> string" where
  "withPrepend prepend cmd = (if prepend = [] then cmd else prepend @ '' '' @ cmd)"

subsection \<open>Templates as token lists\<close>

text \<open>
  For the proofs a template is cut into its placeholders and the characters between
  them, by the same scan as \<open>findAll\<close>.
\<close>

datatype token = Lit char | Hole string string string

function tokens :: "string \<Rightarrow> token list" where
  "tokens [] = []"
| "tokens (c # cs) =
     (case matchAt (c # cs) of
        Some (whole, typ, name, rest) \<Rightarrow> Hole whole typ name # tokens rest
      | None \<Rightarrow> Lit c # tokens cs)"
  by pat_completeness auto
termination
proof (relation "measure length")
  show "wf (measure length)" by simp
next
  fix c cs show "(cs, c # cs) \<in> measure length" by simp
next
  fix c :: char and cs x2 whole y ty ya name rest
  assume "matchAt (c # cs) = Some x2" "(whole, y) = x2" "(ty, ya) = y" "(name, rest) = ya"
  then have "matchAt (c # cs) = Some (whole, ty, name, rest)" by simp
  from matchAt_rest[OF this] show "(rest, c # cs) \<in> measure length"
    by (cases whole) auto
qed

definition bound_text :: "(string \<Rightarrow> string \<Rightarrow> string option) \<Rightarrow> string \<Rightarrow> string \<Rightarrow> string" where
  "bound_text b typ name = (case b typ name of Some v \<Rightarrow> v | None \<Rightarrow> [])"

text \<open>The template with the placeholders in \<open>D\<close> replaced and the others left as they are.\<close>

fun render :: "string set \<Rightarrow> (string \<Rightarrow> string \<Rightarrow> string option) \<Rightarrow> token list \<Rightarrow> string" where
  "render D b [] = []"
| "render D b (Lit c # ts) = c # render D b ts"
| "render D b (Hole w typ name # ts) = (if w \<in> D then bound_text b typ name else w) @ render D b ts"

fun holes :: "token list \<Rightarrow> (string \<times> string \<times> string) list" where
  "holes [] = []"
| "holes (Lit c # ts) = holes ts"
| "holes (Hole w typ name # ts) = (w, typ, name) # holes ts"

definition is_placeholder :: "string \<Rightarrow> string \<Rightarrow> string \<Rightarrow> bool" where
  "is_placeholder w typ name \<longleftrightarrow> (\<exists>s rest. matchAt s = Some (w, typ, name, rest))"

lemma render_empty: "render {} b (tokens s) = s"
proof (induction s rule: tokens.induct)
  case 1
  then show ?case by simp
next
  case (2 c cs)
  show ?case
  proof (cases "matchAt (c # cs)")
    case None
    with 2 show ?thesis by simp
  next
    case (Some m)
    then obtain w t n r where m: "m = (w, t, n, r)" by (cases m) auto
    have "tokens (c # cs) = Hole w t n # tokens r" using Some m by simp
    moreover have "c # cs = w @ r" using matchAt_rest[OF Some[unfolded m]] by simp
    ultimately show ?thesis using 2(2)[OF Some[unfolded m] refl refl refl] by simp
  qed
qed

lemma render_UNIV: "render UNIV b (tokens s) = substitute b s"
proof (induction s rule: tokens.induct)
  case 1
  then show ?case by simp
next
  case (2 c cs)
  show ?case
  proof (cases "matchAt (c # cs)")
    case None
    with 2 show ?thesis by simp
  next
    case (Some m)
    then obtain w t n r where m: "m = (w, t, n, r)" by (cases m) auto
    from 2(2)[OF Some[unfolded m] refl refl refl] Some m
    show ?thesis by (simp add: bound_text_def)
  qed
qed

lemma holes_tokens: "holes (tokens s) = findAll s"
proof (induction s rule: tokens.induct)
  case 1
  then show ?case by simp
next
  case (2 c cs)
  show ?case
  proof (cases "matchAt (c # cs)")
    case None
    with 2 show ?thesis by simp
  next
    case (Some m)
    then obtain w t n r where m: "m = (w, t, n, r)" by (cases m) auto
    from 2(2)[OF Some[unfolded m] refl refl refl] Some m
    show ?thesis by simp
  qed
qed

lemma tokens_placeholders:
  "Hole w t n \<in> set (tokens s) \<Longrightarrow> is_placeholder w t n"
proof (induction s rule: tokens.induct)
  case 1
  then show ?case by simp
next
  case (2 c cs)
  show ?case
  proof (cases "matchAt (c # cs)")
    case None
    with 2 show ?thesis by simp
  next
    case (Some m)
    then obtain w' t' n' r where m: "m = (w', t', n', r)" by (cases m) auto
    from 2(2)[OF Some[unfolded m] refl refl refl] 2(3) Some m
    show ?thesis by (auto simp: is_placeholder_def)
  qed
qed

lemma holes_set: "(w, t, n) \<in> set (holes ts) \<longleftrightarrow> Hole w t n \<in> set ts"
  by (induction ts rule: holes.induct) auto

subsection \<open>The shape of a placeholder\<close>

lemma split_at_first:
  "a \<notin> set xs \<Longrightarrow> a \<notin> set xs' \<Longrightarrow> xs @ a # ys = xs' @ a # ys' \<Longrightarrow> xs = xs' \<and> ys = ys'"
proof (induction xs arbitrary: xs')
  case Nil
  then show ?case by (cases xs') auto
next
  case (Cons x xs)
  show ?case
  proof (cases xs')
    case Nil
    with Cons.prems show ?thesis by auto
  next
    case (Cons x' xs'')
    with Cons.prems have "x = x'" "a \<notin> set xs" "a \<notin> set xs''" "xs @ a # ys = xs'' @ a # ys'" by auto
    from Cons.IH[OF this(2,3,4)] this(1) Cons show ?thesis by simp
  qed
qed

lemma matchKinds_Some:
  "matchKinds ks s = Some (t, n, r) \<Longrightarrow> t \<in> set ks \<and> matchKind t s = Some (n, r)"
  by (induction ks) (auto split: option.splits)

lemma matchAt_shape:
  assumes "matchAt s = Some (w, t, n, r)"
  shows "w = ''{'' @ t @ '':'' @ n @ ''}'' \<and> t \<in> set [''o'', ''os'', ''i'', ''is'', ''p''] \<and>
         n \<noteq> [] \<and> (\<forall>c \<in> set n. nameChar c)"
proof -
  from assms obtain s' where s: "s = CHR ''{'' # s'"
    and k: "matchKinds [''o'', ''os'', ''i'', ''is'', ''p''] s' = Some (t, n, r)"
    and w: "w = ''{'' @ t @ '':'' @ n @ ''}''"
    by (auto simp: matchAt_def split: list.splits if_splits option.splits)
  from matchKinds_Some[OF k] have t: "t \<in> set [''o'', ''os'', ''i'', ''is'', ''p'']"
    and m: "matchKind t s' = Some (n, r)" by auto
  from matchKind_rest[OF m] w t show ?thesis by blast
qed

lemma kind_chars:
  "t \<in> set [''o'', ''os'', ''i'', ''is'', ''p''] \<Longrightarrow>
     CHR ''{'' \<notin> set t \<and> CHR ''}'' \<notin> set t \<and> CHR '':'' \<notin> set t"
  by auto

lemma placeholder_body:
  assumes "is_placeholder w t n"
  shows "\<exists>body. w = CHR ''{'' # body @ ''}'' \<and> CHR ''{'' \<notin> set body \<and> CHR ''}'' \<notin> set body"
proof -
  from assms obtain s r where "matchAt s = Some (w, t, n, r)" by (auto simp: is_placeholder_def)
  from matchAt_shape[OF this] have w: "w = ''{'' @ t @ '':'' @ n @ ''}''"
    and t: "t \<in> set [''o'', ''os'', ''i'', ''is'', ''p'']" and n: "\<forall>c \<in> set n. nameChar c" by auto
  have "w = CHR ''{'' # (t @ '':'' @ n) @ ''}''" using w by simp
  moreover have "CHR ''{'' \<notin> set (t @ '':'' @ n)" "CHR ''}'' \<notin> set (t @ '':'' @ n)"
    using kind_chars[OF t] n by (auto simp: nameChar_def)
  ultimately show ?thesis by blast
qed

lemma placeholder_groups:
  assumes "is_placeholder w t n" "is_placeholder w t' n'"
  shows "t = t' \<and> n = n'"
proof -
  from assms obtain s r s' r' where "matchAt s = Some (w, t, n, r)" "matchAt s' = Some (w, t', n', r')"
    by (auto simp: is_placeholder_def)
  from matchAt_shape[OF this(1)] matchAt_shape[OF this(2)]
  have w: "w = ''{'' @ t @ '':'' @ n @ ''}''" "w = ''{'' @ t' @ '':'' @ n' @ ''}''"
    and t: "t \<in> set [''o'', ''os'', ''i'', ''is'', ''p'']" "t' \<in> set [''o'', ''os'', ''i'', ''is'', ''p'']"
    by auto
  from w have e: "t @ CHR '':'' # (n @ ''}'') = t' @ CHR '':'' # (n' @ ''}'')" by simp
  have c: "CHR '':'' \<notin> set t" "CHR '':'' \<notin> set t'"
    using kind_chars[OF t(1)] kind_chars[OF t(2)] by simp_all
  from split_at_first[OF c e] have "t = t' \<and> n @ ''}'' = n' @ ''}''" .
  then show ?thesis by simp
qed

lemma placeholder_prefix:
  assumes "is_placeholder w t n" "is_placeholder w' t' n'" "prefix w (w' @ x)"
  shows "w = w'"
proof -
  from placeholder_body[OF assms(1)] obtain body where
    w: "w = CHR ''{'' # body @ ''}''" and b: "CHR ''}'' \<notin> set body" by blast
  from placeholder_body[OF assms(2)] obtain body' where
    w': "w' = CHR ''{'' # body' @ ''}''" and b': "CHR ''}'' \<notin> set body'" by blast
  from assms(3) obtain z where "w' @ x = w @ z" by (auto simp: prefix_def)
  with w w' have e: "body' @ CHR ''}'' # x = body @ CHR ''}'' # z" by simp
  from split_at_first[OF b' b e] have "body' = body" ..
  with w w' show ?thesis by simp
qed

lemma placeholder_head: "is_placeholder w t n \<Longrightarrow> w \<noteq> [] \<and> hd w = CHR ''{'' \<and> CHR ''{'' \<notin> set (tl w)"
  using placeholder_body by fastforce

subsection \<open>Replacing in a concatenation\<close>

lemma replaceAll_skip:
  "old \<noteq> [] \<Longrightarrow> (\<forall>i < length xs. \<not> prefix old (drop i xs @ ys)) \<Longrightarrow>
     replaceAll (xs @ ys) old new = xs @ replaceAll ys old new"
proof (induction xs)
  case Nil
  then show ?case by simp
next
  case (Cons x xs)
  from Cons.prems(2) have 0: "\<not> prefix old ((x # xs) @ ys)" by force
  have "\<forall>i < length xs. \<not> prefix old (drop i xs @ ys)"
  proof (intro allI impI)
    fix i assume "i < length xs"
    then have "Suc i < length (x # xs)" by simp
    with Cons.prems(2) have "\<not> prefix old (drop (Suc i) (x # xs) @ ys)" by blast
    then show "\<not> prefix old (drop i xs @ ys)" by simp
  qed
  from Cons.IH[OF Cons.prems(1) this] 0 show ?case by simp
qed

lemma replaceAll_hit:
  "old \<noteq> [] \<Longrightarrow> replaceAll (old @ ys) old new = new @ replaceAll ys old new"
  by (cases old) auto

subsection \<open>Where substituted text cannot be mistaken for a placeholder\<close>

lemma render_take:
  assumes "\<forall>w t n. Hole w t n \<in> set ts \<longrightarrow> is_placeholder w t n"
    and "CHR ''{'' \<notin> set (take k (render D b ts))"
  shows "take k (render D b ts) = take k (render UNIV b ts)"
  using assms
proof (induction ts arbitrary: k)
  case Nil
  then show ?case by simp
next
  case (Cons tk ts)
  have ph: "\<forall>w t n. Hole w t n \<in> set ts \<longrightarrow> is_placeholder w t n"
    using Cons.prems(1) by simp
  show ?case
  proof (cases tk)
    case (Lit c)
    show ?thesis
    proof (cases k)
      case 0
      then show ?thesis by simp
    next
      case (Suc k')
      with Cons.prems(2) Lit have "CHR ''{'' \<notin> set (take k' (render D b ts))" by simp
      from Cons.IH[OF ph this] Suc Lit show ?thesis by simp
    qed
  next
    case (Hole w ty name)
    show ?thesis
    proof (cases "w \<in> D")
      case True
      let ?v = "bound_text b ty name"
      from Cons.prems(2) Hole True
      have "CHR ''{'' \<notin> set (take (k - length ?v) (render D b ts))" by simp
      from Cons.IH[OF ph this] Hole True show ?thesis by simp
    next
      case False
      from Cons.prems(1) Hole have "is_placeholder w ty name" by simp
      from placeholder_head[OF this] obtain w' where w: "w = CHR ''{'' # w'" by (cases w) auto
      have "k = 0"
      proof (cases k)
        case 0
        then show ?thesis .
      next
        case (Suc k')
        with False Cons.prems(2) Hole w show ?thesis by simp
      qed
      then show ?thesis by simp
    qed
  qed
qed

lemma prefix_transfer:
  assumes p: "prefix w (u @ X)" and u: "u \<noteq> []" and nb: "CHR ''{'' \<notin> set (tl w)"
    and T: "\<And>k. CHR ''{'' \<notin> set (take k X) \<Longrightarrow> take k X = take k X'"
  shows "prefix w (u @ X')"
proof (cases "w = []")
  case True
  then show ?thesis by simp
next
  case False
  let ?k = "length w - length u"
  from p obtain z where "u @ X = w @ z" by (auto simp: prefix_def)
  then have "take (length w) (u @ X) = w" by simp
  then have w_eq: "w = take (length w) u @ take ?k X" by simp
  from False u obtain a as where h: "take (length w) u = a # as"
    by (cases "take (length w) u") auto
  with w_eq have "tl w = as @ take ?k X" by (metis append_Cons list.sel(3))
  with nb have "CHR ''{'' \<notin> set (take ?k X)" by simp
  from T[OF this] w_eq have "w = take (length w) u @ take ?k X'" by simp
  then have "w = take (length w) (u @ X')" by simp
  then show ?thesis by (metis take_is_prefix)
qed

lemma replaceAll_render:
  assumes "\<forall>w t n. Hole w t n \<in> set ts \<longrightarrow> is_placeholder w t n"
    and w: "is_placeholder w t n"
    and "\<not> sublist w (render UNIV b ts)"
  shows "replaceAll (render D b ts) w (bound_text b t n) = render (insert w D) b ts"
  using assms(1,3)
proof (induction ts)
  case Nil
  then show ?case by simp
next
  case (Cons tk ts)
  let ?v = "bound_text b t n"
  have ph: "\<forall>w t n. Hole w t n \<in> set ts \<longrightarrow> is_placeholder w t n"
    using Cons.prems(1) by simp
  from placeholder_head[OF w] have wne: "w \<noteq> []" and hd: "hd w = CHR ''{''"
    and tl: "CHR ''{'' \<notin> set (tl w)" by auto
  have T: "\<And>k. CHR ''{'' \<notin> set (take k (render D b ts)) \<Longrightarrow>
             take k (render D b ts) = take k (render UNIV b ts)"
    using render_take[OF ph] by blast
  show ?case
  proof (cases tk)
    case (Lit c)
    from Cons.prems(2) Lit have ns: "\<not> sublist w (c # render UNIV b ts)" by simp
    then have clean: "\<not> sublist w (render UNIV b ts)" by (simp add: sublist_Cons_right)
    have np: "\<not> prefix w ([c] @ render D b ts)"
    proof
      assume "prefix w ([c] @ render D b ts)"
      from prefix_transfer[OF this _ tl T] have "prefix w (c # render UNIV b ts)" by simp
      with ns show False by (simp add: sublist_Cons_right)
    qed
    have "replaceAll ([c] @ render D b ts) w ?v = [c] @ replaceAll (render D b ts) w ?v"
      by (rule replaceAll_skip[OF wne]) (use np in simp)
    with Cons.IH[OF ph clean] Lit show ?thesis by simp
  next
    case (Hole w' t' n')
    from Cons.prems(1) Hole have w': "is_placeholder w' t' n'" by simp
    let ?v' = "bound_text b t' n'"
    from Cons.prems(2) Hole have ns: "\<not> sublist w (?v' @ render UNIV b ts)" by simp
    then have clean: "\<not> sublist w (render UNIV b ts)"
      by (metis sublist_append_leftI sublist_order.order.trans)
    note IH = Cons.IH[OF ph clean]
    show ?thesis
    proof (cases "w' \<in> D")
      case True
      have np: "\<forall>i < length ?v'. \<not> prefix w (drop i ?v' @ render D b ts)"
      proof (intro allI impI notI)
        fix i assume i: "i < length ?v'" and p: "prefix w (drop i ?v' @ render D b ts)"
        from i have "drop i ?v' \<noteq> []" by simp
        from prefix_transfer[OF p this tl T] have "prefix w (drop i ?v' @ render UNIV b ts)" .
        then obtain z where "drop i ?v' @ render UNIV b ts = w @ z" by (auto simp: prefix_def)
        then have "?v' @ render UNIV b ts = take i ?v' @ w @ z"
          by (metis append_assoc append_take_drop_id)
        then have "sublist w (?v' @ render UNIV b ts)" by (auto simp: sublist_def)
        with ns show False ..
      qed
      from replaceAll_skip[OF wne np] IH Hole True show ?thesis by simp
    next
      case False
      show ?thesis
      proof (cases "w' = w")
        case True
        from placeholder_groups[OF w w'[unfolded True]] have "t' = t" "n' = n" by auto
        with replaceAll_hit[OF wne, of "render D b ts" ?v] IH Hole True False show ?thesis by simp
      next
        case neq: False
        from placeholder_body[OF w'] obtain body' where
          b': "w' = CHR ''{'' # body' @ ''}''" and nb': "CHR ''{'' \<notin> set body'" by blast
        have np: "\<forall>i < length w'. \<not> prefix w (drop i w' @ render D b ts)"
        proof (intro allI impI notI)
          fix i assume i: "i < length w'" and p: "prefix w (drop i w' @ render D b ts)"
          show False
          proof (cases i)
            case 0
            with p have "prefix w (w' @ render D b ts)" by simp
            from placeholder_prefix[OF w w' this] neq show False by simp
          next
            case (Suc j)
            with i b' have d: "drop i w' = drop j (body' @ ''}'')" and j: "j < length (body' @ ''}'')"
              by auto
            from j have ne: "drop j (body' @ ''}'') \<noteq> []" by simp
            then have "hd (drop j (body' @ ''}'')) \<in> set (body' @ ''}'')"
              by (metis hd_in_set in_set_dropD)
            with nb' have h: "hd (drop j (body' @ ''}'')) \<noteq> CHR ''{''" by auto
            from p d obtain z where "drop j (body' @ ''}'') @ render D b ts = w @ z"
              by (auto simp: prefix_def)
            with ne wne have "hd (drop j (body' @ ''}'')) = hd w"
              by (metis hd_append2)
            with h hd show False by simp
          qed
        qed
        from replaceAll_skip[OF wne np] IH Hole False neq show ?thesis by simp
      qed
    qed
  qed
qed

subsection \<open>One step and the loop of the formatter\<close>

lemma formatStep_bound:
  assumes "binding inTargets outTargets params t n = Some v"
  shows "formatStep inTargets outTargets params (w, t, n) cmd = Inr (replaceAll cmd w v) \<and> v \<noteq> []"
  using assms
  by (auto simp: formatStep_def newstrFor_def binding_def Check_def paramValue_def
      GetTempPath_def GetFifoPath_def GetPath_def split: if_splits option.splits)

lemma formatStep_unbound:
  assumes "binding inTargets outTargets params t n = None"
  shows "isl (formatStep inTargets outTargets params (w, t, n) cmd)"
  using assms
  by (auto simp: formatStep_def newstrFor_def binding_def Check_def paramValue_def
      GetTempPath_def GetFifoPath_def GetPath_def split: if_splits option.splits)

lemma formatLoop_unbound:
  "\<exists>(w, t, n) \<in> set ms. binding inTargets outTargets params t n = None \<Longrightarrow>
     isl (formatLoop inTargets outTargets params ms cmd)"
proof (induction ms arbitrary: cmd)
  case Nil
  then show ?case by simp
next
  case (Cons m ms)
  obtain w t n where m: "m = (w, t, n)" by (cases m) auto
  show ?case
  proof (cases "binding inTargets outTargets params t n")
    case None
    from formatStep_unbound[OF this, of w cmd] m show ?thesis
      by (auto split: sum.splits)
  next
    case (Some v)
    with Cons.prems m have "\<exists>(w, t, n) \<in> set ms. binding inTargets outTargets params t n = None"
      by auto
    from Cons.IH[OF this] formatStep_bound[OF Some, of w cmd] m show ?thesis by simp
  qed
qed

lemma formatLoop_bound:
  "\<forall>(w, t, n) \<in> set ms. binding inTargets outTargets params t n \<noteq> None \<Longrightarrow>
     \<exists>r. formatLoop inTargets outTargets params ms cmd = Inr r"
proof (induction ms arbitrary: cmd)
  case Nil
  then show ?case by simp
next
  case (Cons m ms)
  obtain w t n where m: "m = (w, t, n)" by (cases m) auto
  with Cons.prems obtain v where v: "binding inTargets outTargets params t n = Some v" by auto
  from Cons.prems have "\<forall>(w, t, n) \<in> set ms. binding inTargets outTargets params t n \<noteq> None" by simp
  from Cons.IH[OF this] formatStep_bound[OF v, of w cmd] m show ?case by simp
qed

lemma formatLoop_render:
  assumes "\<forall>w t n. Hole w t n \<in> set ts \<longrightarrow> is_placeholder w t n"
    and "\<forall>(w, t, n) \<in> set ms. is_placeholder w t n \<and>
           binding inTargets outTargets params t n \<noteq> None \<and>
           \<not> sublist w (render UNIV (binding inTargets outTargets params) ts)"
  shows "formatLoop inTargets outTargets params ms (render D (binding inTargets outTargets params) ts)
           = Inr (render (D \<union> fst ` set ms) (binding inTargets outTargets params) ts)"
  using assms(2)
proof (induction ms arbitrary: D)
  case Nil
  then show ?case by simp
next
  case (Cons m ms)
  let ?b = "binding inTargets outTargets params"
  obtain w t n where m: "m = (w, t, n)" by (cases m) auto
  with Cons.prems have w: "is_placeholder w t n" and clean: "\<not> sublist w (render UNIV ?b ts)"
    by auto
  from Cons.prems m obtain v where v: "?b t n = Some v" by auto
  then have bt: "bound_text ?b t n = v" by (simp add: bound_text_def)
  from replaceAll_render[OF assms(1) w clean, of D] bt
  have r: "replaceAll (render D ?b ts) w v = render (insert w D) ?b ts" by simp
  from Cons.prems have rest: "\<forall>(w, t, n) \<in> set ms. is_placeholder w t n \<and>
           ?b t n \<noteq> None \<and> \<not> sublist w (render UNIV ?b ts)" by simp
  have "insert w D \<union> fst ` set ms = D \<union> fst ` set (m # ms)" using m by auto
  with Cons.IH[OF rest, of "insert w D"] formatStep_bound[OF v, of w "render D ?b ts"] r m
  show ?case by simp
qed

lemma render_cover:
  "\<forall>w t n. Hole w t n \<in> set ts \<longrightarrow> w \<in> D \<Longrightarrow> render D b ts = render UNIV b ts"
  by (induction ts rule: holes.induct) auto

lemma formatLoop_substitute:
  assumes "\<forall>(w, t, n) \<in> set (findAll cmd).
             binding inTargets outTargets params t n \<noteq> None \<and>
             \<not> sublist w (substitute (binding inTargets outTargets params) cmd)"
  shows "formatLoop inTargets outTargets params (findAll cmd) cmd
           = Inr (substitute (binding inTargets outTargets params) cmd)"
proof -
  let ?b = "binding inTargets outTargets params"
  let ?ts = "tokens cmd"
  have ph: "\<forall>w t n. Hole w t n \<in> set ?ts \<longrightarrow> is_placeholder w t n"
    using tokens_placeholders by blast
  have ms: "\<forall>(w, t, n) \<in> set (findAll cmd). is_placeholder w t n \<and> ?b t n \<noteq> None \<and>
              \<not> sublist w (render UNIV ?b ?ts)"
  proof (clarify, intro conjI)
    fix w t n assume m: "(w, t, n) \<in> set (findAll cmd)"
    then have "Hole w t n \<in> set ?ts" by (simp add: holes_tokens[symmetric] holes_set)
    with ph show "is_placeholder w t n" by blast
    from m assms show "?b t n \<noteq> None" by auto
    from m assms show "\<not> sublist w (render UNIV ?b ?ts)" by (auto simp: render_UNIV)
  qed
  have cover: "\<forall>w t n. Hole w t n \<in> set ?ts \<longrightarrow> w \<in> {} \<union> fst ` set (findAll cmd)"
  proof (intro allI impI)
    fix w t n assume "Hole w t n \<in> set ?ts"
    then have "(w, t, n) \<in> set (findAll cmd)" by (simp add: holes_tokens[symmetric] holes_set)
    then show "w \<in> {} \<union> fst ` set (findAll cmd)" by force
  qed
  from formatLoop_render[OF ph ms, of "{}"] render_cover[OF cover, of ?b]
  show ?thesis by (simp add: render_empty render_UNIV)
qed

text \<open>
  Claim C1, amended. Let the binding of a placeholder be as the claim says (temp path of
  the output for \<^verbatim>\<open>{o:N}\<close>, FIFO path of the output for \<^verbatim>\<open>{os:N}\<close>, FIFO path of a
  streaming input and final path of any other input for \<^verbatim>\<open>{i:N}\<close>, the parameter value
  for \<^verbatim>\<open>{p:N}\<close>; none for an unknown port, an empty input path, an empty parameter and
  a placeholder of another kind). For every template, targets, parameters and prepend
  string: if a placeholder of the template has no binding, the formatter ends in a fatal
  error; if all have one, the formatter succeeds, and with a non-empty prepend string the
  command is the prepend string, a space, and the command it gives without prepend; and
  if moreover no placeholder of the template occurs as text in the template with every
  placeholder replaced by its binding, then that substituted template is the command.
  The last condition is needed: the formatter rewrites the command placeholder after
  placeholder, replacing every occurrence of the placeholder's text, also in text that an
  earlier replacement has put there.
\<close>

theorem formatCommand_substitutes:
  "((\<exists>(w, t, n) \<in> set (findAll cmd). binding inTargets outTargets params t n = None) \<longrightarrow>
       isl (formatCommand cmd inTargets outTargets params prepend)) \<and>
   ((\<forall>(w, t, n) \<in> set (findAll cmd). binding inTargets outTargets params t n \<noteq> None) \<longrightarrow>
       (\<exists>r. formatCommand cmd inTargets outTargets params [] = Inr r \<and>
            formatCommand cmd inTargets outTargets params prepend = Inr (withPrepend prepend r))) \<and>
   ((\<forall>(w, t, n) \<in> set (findAll cmd). binding inTargets outTargets params t n \<noteq> None \<and>
         \<not> sublist w (substitute (binding inTargets outTargets params) cmd)) \<longrightarrow>
       formatCommand cmd inTargets outTargets params prepend =
         Inr (withPrepend prepend (substitute (binding inTargets outTargets params) cmd)))"
proof (intro conjI impI)
  assume "\<exists>(w, t, n) \<in> set (findAll cmd). binding inTargets outTargets params t n = None"
  from formatLoop_unbound[OF this, of cmd]
  show "isl (formatCommand cmd inTargets outTargets params prepend)"
    by (auto simp: formatCommand_def split: sum.splits)
next
  assume "\<forall>(w, t, n) \<in> set (findAll cmd). binding inTargets outTargets params t n \<noteq> None"
  from formatLoop_bound[OF this, of cmd] obtain r where
    "formatLoop inTargets outTargets params (findAll cmd) cmd = Inr r" by blast
  then have "formatCommand cmd inTargets outTargets params [] = Inr r \<and>
       formatCommand cmd inTargets outTargets params prepend = Inr (withPrepend prepend r)"
    by (simp add: formatCommand_def withPrepend_def)
  then show "\<exists>r. formatCommand cmd inTargets outTargets params [] = Inr r \<and>
       formatCommand cmd inTargets outTargets params prepend = Inr (withPrepend prepend r)" ..
next
  assume "\<forall>(w, t, n) \<in> set (findAll cmd). binding inTargets outTargets params t n \<noteq> None \<and>
         \<not> sublist w (substitute (binding inTargets outTargets params) cmd)"
  from formatLoop_substitute[OF this]
  show "formatCommand cmd inTargets outTargets params prepend =
         Inr (withPrepend prepend (substitute (binding inTargets outTargets params) cmd))"
    by (simp add: formatCommand_def withPrepend_def)
qed

theorem formatCommand_substitutes_witness:
  "findAll ''cat {i:in} > {o:out} # {p:a}'' =
     [(''{i:in}'', ''i'', ''in''), (''{o:out}'', ''o'', ''out''), (''{p:a}'', ''p'', ''a'')] \<and>
   list_all (\<lambda>(w, t, n).
       binding [''in'' \<mapsto> \<lparr>path = ''a.txt'', doStream = False\<rparr>]
               [''out'' \<mapsto> \<lparr>path = ''b.txt'', doStream = False\<rparr>] [''a'' \<mapsto> ''xx''] t n \<noteq> None \<and>
       \<not> sublist w (substitute
            (binding [''in'' \<mapsto> \<lparr>path = ''a.txt'', doStream = False\<rparr>]
               [''out'' \<mapsto> \<lparr>path = ''b.txt'', doStream = False\<rparr>] [''a'' \<mapsto> ''xx''])
            ''cat {i:in} > {o:out} # {p:a}''))
     (findAll ''cat {i:in} > {o:out} # {p:a}'') \<and>
   formatCommand ''cat {i:in} > {o:out} # {p:a}''
       [''in'' \<mapsto> \<lparr>path = ''a.txt'', doStream = False\<rparr>]
       [''out'' \<mapsto> \<lparr>path = ''b.txt'', doStream = False\<rparr>] [''a'' \<mapsto> ''xx''] ''time''
     = Inr ''time cat a.txt > b.txt.tmp # xx'' \<and>
   isl (formatCommand ''cat {i:in} > {o:out} # {p:a}''
       [''in'' \<mapsto> \<lparr>path = ''a.txt'', doStream = False\<rparr>] Map.empty [''a'' \<mapsto> ''xx''] ''time'')"
proof -
  have 1: "findAll ''cat {i:in} > {o:out} # {p:a}'' =
     [(''{i:in}'', ''i'', ''in''), (''{o:out}'', ''o'', ''out''), (''{p:a}'', ''p'', ''a'')]"
    by code_simp
  have 2: "list_all (\<lambda>(w, t, n).
       binding [''in'' \<mapsto> \<lparr>path = ''a.txt'', doStream = False\<rparr>]
               [''out'' \<mapsto> \<lparr>path = ''b.txt'', doStream = False\<rparr>] [''a'' \<mapsto> ''xx''] t n \<noteq> None \<and>
       \<not> sublist w (substitute
            (binding [''in'' \<mapsto> \<lparr>path = ''a.txt'', doStream = False\<rparr>]
               [''out'' \<mapsto> \<lparr>path = ''b.txt'', doStream = False\<rparr>] [''a'' \<mapsto> ''xx''])
            ''cat {i:in} > {o:out} # {p:a}''))
     (findAll ''cat {i:in} > {o:out} # {p:a}'')"
    by code_simp
  have 3: "substitute
            (binding [''in'' \<mapsto> \<lparr>path = ''a.txt'', doStream = False\<rparr>]
               [''out'' \<mapsto> \<lparr>path = ''b.txt'', doStream = False\<rparr>] [''a'' \<mapsto> ''xx''])
            ''cat {i:in} > {o:out} # {p:a}'' = ''cat a.txt > b.txt.tmp # xx''"
    by code_simp
  have 4: "\<exists>(w, t, n) \<in> set (findAll ''cat {i:in} > {o:out} # {p:a}'').
        binding [''in'' \<mapsto> \<lparr>path = ''a.txt'', doStream = False\<rparr>] Map.empty [''a'' \<mapsto> ''xx''] t n = None"
    unfolding 1 by (simp add: binding_def)
  from formatCommand_substitutes[of "''cat {i:in} > {o:out} # {p:a}''"
      "[''in'' \<mapsto> \<lparr>path = ''a.txt'', doStream = False\<rparr>]"
      "[''out'' \<mapsto> \<lparr>path = ''b.txt'', doStream = False\<rparr>]" "[''a'' \<mapsto> ''xx'']" "''time''"]
    2 3
  have 5: "formatCommand ''cat {i:in} > {o:out} # {p:a}''
       [''in'' \<mapsto> \<lparr>path = ''a.txt'', doStream = False\<rparr>]
       [''out'' \<mapsto> \<lparr>path = ''b.txt'', doStream = False\<rparr>] [''a'' \<mapsto> ''xx''] ''time''
     = Inr ''time cat a.txt > b.txt.tmp # xx''"
    by (simp add: list_all_iff withPrepend_def)
  from formatCommand_substitutes[of "''cat {i:in} > {o:out} # {p:a}''"
      "[''in'' \<mapsto> \<lparr>path = ''a.txt'', doStream = False\<rparr>]" Map.empty "[''a'' \<mapsto> ''xx'']" "''time''"] 4
  have 6: "isl (formatCommand ''cat {i:in} > {o:out} # {p:a}''
       [''in'' \<mapsto> \<lparr>path = ''a.txt'', doStream = False\<rparr>] Map.empty [''a'' \<mapsto> ''xx''] ''time'')"
    by blast
  from 1 2 5 6 show ?thesis by blast
qed

text \<open>
  The claim as stated fails where a substituted value contains the text of a later
  placeholder: with the parameter \<open>a\<close> bound to the text \<^verbatim>\<open>{i:b}\<close> and the input \<open>b\<close> at
  path \<open>x\<close>, both placeholders of \<^verbatim>\<open>{p:a} {i:b}\<close> have their bindings and replacing each
  by its binding gives \<^verbatim>\<open>{i:b} x\<close>, but the formatter returns \<^verbatim>\<open>x x\<close>.
\<close>

theorem formatCommand_counterexample:
  "map (\<lambda>(w, t, n). binding [''b'' \<mapsto> \<lparr>path = ''x'', doStream = False\<rparr>] Map.empty
                       [''a'' \<mapsto> ''{i:b}''] t n) (findAll ''{p:a} {i:b}'')
     = [Some ''{i:b}'', Some ''x''] \<and>
   substitute (binding [''b'' \<mapsto> \<lparr>path = ''x'', doStream = False\<rparr>] Map.empty [''a'' \<mapsto> ''{i:b}''])
      ''{p:a} {i:b}'' = ''{i:b} x'' \<and>
   formatCommand ''{p:a} {i:b}'' [''b'' \<mapsto> \<lparr>path = ''x'', doStream = False\<rparr>] Map.empty
      [''a'' \<mapsto> ''{i:b}''] [] = Inr ''x x''"
  by code_simp

section \<open>The audit record of an information packet\<close>

text \<open>
  Modelled from the spec: the type \<^verbatim>\<open>AuditInfo\<close> and its constructor \<^verbatim>\<open>NewAuditInfo\<close>,
  which \<^verbatim>\<open>ip.go\<close> uses and which are not in src/. The spec (section 6) gives the
  fields the core consumes: \<^verbatim>\<open>Params\<close>, a map from parameter names to the values
  used, and \<^verbatim>\<open>Keys\<close>, a map from strings to strings. A new record has both empty.
\<close>

record AuditInfo =
  AuditParams :: "(string \<times> string) list"
  AuditKeys :: "(string \<times> string) list"

definition NewAuditInfo :: AuditInfo where
  "NewAuditInfo = \<lparr>AuditParams = [], AuditKeys = []\<rparr>"

text \<open>
  The information packet of \<^verbatim>\<open>ip.go\<close>: a file target with its audit record, \<open>None\<close>
  for the \<^verbatim>\<open>nil\<close> pointer. The mutex only serialises concurrent callers and the
  sub-stream port and the buffer play no part in the audit record; they are left out.
\<close>

record InformationPacket = FileTarget +
  auditInfo :: "AuditInfo option"

definition GetAuditFilePath :: "'a FileTarget_scheme \<Rightarrow> string" where
  "GetAuditFilePath ip = path ip @ ''.audit.json''"

text \<open>
  What \<^verbatim>\<open>ioutil.ReadFile\<close> finds at a path: nothing, a file whose content it returns,
  or a file that exists and cannot be read (no permission, a directory, an IO fault).
\<close>

datatype disk_file = Content string | Unreadable

datatype io_error = NotExist | ReadFault

definition ReadFile :: "(string \<rightharpoonup> disk_file) \<Rightarrow> string \<Rightarrow> io_error + string" where
  "ReadFile disk p =
     (case disk p of
        None \<Rightarrow> Inl NotExist
      | Some Unreadable \<Rightarrow> Inl ReadFault
      | Some (Content dat) \<Rightarrow> Inr dat)"

text \<open>
  \<^verbatim>\<open>func (ip *InformationPacket) GetAuditInfo() *AuditInfo\<close>. The JSON decoder is a
  parameter: \<open>unmarshal dat ai\<close> is the record \<open>ai\<close> filled from \<open>dat\<close>, or \<open>None\<close>
  when \<open>dat\<close> does not decode. The result is the packet, whose \<open>auditInfo\<close> field is
  set, and the record returned.
\<close>

definition GetAuditInfo ::
  "(string \<Rightarrow> AuditInfo \<Rightarrow> AuditInfo option) \<Rightarrow> (string \<rightharpoonup> disk_file) \<Rightarrow> InformationPacket \<Rightarrow>
     error + (InformationPacket \<times> AuditInfo)" where
  "GetAuditInfo unmarshal disk ip =
     (case auditInfo ip of
        Some ai \<Rightarrow> Inr (ip, ai)
      | None \<Rightarrow>
          (case ReadFile disk (GetAuditFilePath ip) of
             Inr auditFileData \<Rightarrow>
               (case unmarshal auditFileData NewAuditInfo of
                  None \<Rightarrow> Check (Some (UnmarshalFailed (GetAuditFilePath ip)))
                            (Inr (ip\<lparr>auditInfo := Some NewAuditInfo\<rparr>, NewAuditInfo))
                | Some ai \<Rightarrow> Inr (ip\<lparr>auditInfo := Some ai\<rparr>, ai))
           | Inl err \<Rightarrow> Inr (ip\<lparr>auditInfo := Some NewAuditInfo\<rparr>, NewAuditInfo)))"

text \<open>
  Claim C7, amended. Reading the audit info of an IP that has none yet is fatal exactly
  when the audit file can be read and its content does not decode. An error of the read
  itself is not fatal, whether the file is missing or exists and cannot be read: the IP
  then proceeds with an empty audit record.
\<close>

theorem GetAuditInfo_read_error_not_fatal:
  "(isl (GetAuditInfo unmarshal disk ip) \<longleftrightarrow>
      auditInfo ip = None \<and>
      (\<exists>dat. disk (GetAuditFilePath ip) = Some (Content dat) \<and> unmarshal dat NewAuditInfo = None)) \<and>
   (auditInfo ip = None \<and>
      (disk (GetAuditFilePath ip) = None \<or> disk (GetAuditFilePath ip) = Some Unreadable) \<longrightarrow>
      GetAuditInfo unmarshal disk ip = Inr (ip\<lparr>auditInfo := Some NewAuditInfo\<rparr>, NewAuditInfo))"
  by (auto simp: GetAuditInfo_def ReadFile_def Check_def split: option.splits disk_file.splits sum.splits)

theorem GetAuditInfo_read_error_not_fatal_witness:
  "GetAuditInfo (\<lambda>dat ai. None) [''a.txt.audit.json'' \<mapsto> Content ''{''] 
      \<lparr>path = ''a.txt'', doStream = False, auditInfo = None\<rparr>
     = Inl (UnmarshalFailed ''a.txt.audit.json'') \<and>
   GetAuditInfo (\<lambda>dat ai. None) Map.empty \<lparr>path = ''a.txt'', doStream = False, auditInfo = None\<rparr>
     = Inr (\<lparr>path = ''a.txt'', doStream = False, auditInfo = Some NewAuditInfo\<rparr>, NewAuditInfo)"
  using GetAuditInfo_read_error_not_fatal[of "\<lambda>dat ai. None" Map.empty
      "\<lparr>path = ''a.txt'', doStream = False, auditInfo = None\<rparr>"]
  by (simp add: GetAuditInfo_def ReadFile_def Check_def GetAuditFilePath_def)

text \<open>
  The claim as stated fails: the audit file of \<^verbatim>\<open>a.txt\<close> exists and cannot be read,
  and \<open>GetAuditInfo\<close> returns the empty audit record instead of ending with an error.
\<close>

theorem GetAuditInfo_counterexample:
  "[''a.txt.audit.json'' \<mapsto> Unreadable] (GetAuditFilePath \<lparr>path = ''a.txt'', doStream = False, auditInfo = None\<rparr>)
     = Some Unreadable \<and>
   GetAuditInfo (\<lambda>dat ai. Some ai) [''a.txt.audit.json'' \<mapsto> Unreadable]
      \<lparr>path = ''a.txt'', doStream = False, auditInfo = None\<rparr>
     = Inr (\<lparr>path = ''a.txt'', doStream = False, auditInfo = Some NewAuditInfo\<rparr>, NewAuditInfo)"
  by (simp add: GetAuditInfo_def ReadFile_def GetAuditFilePath_def)

section \<open>Shell tasks\<close>

text \<open>
  A Go map that the code ranges over is an association list with distinct keys, in the
  order in which the range visits it; Go leaves that order open, and the theorems hold
  for every order. The task as the path formatters and a custom executor see it has the
  input targets, the output targets, the parameters and the command; a scheduled task
  has its custom executor besides. The channel \<^verbatim>\<open>Done\<close> of a task is not a field of
  the model: sending on it and closing it are events.

  The file system is the set of paths at which \<^verbatim>\<open>os.Stat\<close> succeeds.
  A path formatter and a custom executor are functions of the client; either may end the
  program (a nil dereference, a call of \<^verbatim>\<open>Check\<close>), which is the error they return
  here. A custom executor acts on the file system.
\<close>

type_synonym files = "string set"

record ShellTaskCore =
  InTargets :: "(string \<times> FileTarget) list"
  OutTargets :: "(string \<times> FileTarget) list"
  Params :: "(string \<times> string) list"
  Command :: string

record ShellTask = ShellTaskCore +
  CustomExecute :: "(ShellTaskCore \<Rightarrow> files \<Rightarrow> error + files) option"

definition doStreamOf :: "(string \<rightharpoonup> bool) \<Rightarrow> string \<Rightarrow> bool" where
  "doStreamOf outPortsDoStream oname = (outPortsDoStream oname = Some True)"

text \<open>The loop of \<^verbatim>\<open>NewShellTask\<close> that creates the out-targets from the path formatters.\<close>

fun makeOutTargets ::
  "ShellTaskCore \<Rightarrow> (string \<rightharpoonup> bool) \<Rightarrow> (string \<times> (ShellTaskCore \<Rightarrow> error + string)) list \<Rightarrow>
     error + (string \<times> FileTarget) list" where
  "makeOutTargets t outPortsDoStream [] = Inr []"
| "makeOutTargets t outPortsDoStream ((oname, ofun) # rest) =
     (case ofun t of
        Inl e \<Rightarrow> Inl e
      | Inr opath \<Rightarrow>
          (let otgt = NewFileTarget opath;
               otgt = (if doStreamOf outPortsDoStream oname then otgt\<lparr>doStream := True\<rparr> else otgt)
           in case makeOutTargets t outPortsDoStream rest of
                Inl e \<Rightarrow> Inl e
              | Inr outTargets \<Rightarrow> Inr ((oname, otgt) # outTargets)))"

definition NewShellTask ::
  "string \<Rightarrow> (string \<times> FileTarget) list \<Rightarrow> (string \<times> (ShellTaskCore \<Rightarrow> error + string)) list \<Rightarrow>
     (string \<rightharpoonup> bool) \<Rightarrow> (string \<times> string) list \<Rightarrow> string \<Rightarrow> error + ShellTask" where
  "NewShellTask cmdPat inTargets outPathFuncs outPortsDoStream params prepend =
     (let t = \<lparr>InTargets = inTargets, OutTargets = [], Params = params, Command = []\<rparr>
      in case makeOutTargets t outPortsDoStream outPathFuncs of
           Inl e \<Rightarrow> Inl e
         | Inr outTargets \<Rightarrow>
             (case formatCommand cmdPat (map_of inTargets) (map_of outTargets) (map_of params) prepend of
                Inl e \<Rightarrow> Inl e
              | Inr command \<Rightarrow>
                  Inr \<lparr>InTargets = inTargets, OutTargets = outTargets, Params = params,
                       Command = command, CustomExecute = None\<rparr>))"

subsection \<open>The probes of the file system\<close>

definition anyOutputExists :: "'a ShellTaskCore_scheme \<Rightarrow> files \<Rightarrow> bool" where
  "anyOutputExists t fs =
     list_ex (\<lambda>(oname, tgt). \<not> doStream tgt \<and> (GetPath tgt \<in> fs \<or> GetTempPath tgt \<in> fs)) (OutTargets t)"

definition anyFifosExist :: "'a ShellTaskCore_scheme \<Rightarrow> files \<Rightarrow> bool" where
  "anyFifosExist t fs = list_ex (\<lambda>(oname, tgt). doStream tgt \<and> GetFifoPath tgt \<in> fs) (OutTargets t)"

definition fifosInOutTargetsMissing :: "'a ShellTaskCore_scheme \<Rightarrow> files \<Rightarrow> bool" where
  "fifosInOutTargetsMissing t fs =
     list_ex (\<lambda>(oname, tgt). doStream tgt \<and> GetFifoPath tgt \<notin> fs) (OutTargets t)"

subsection \<open>Atomize\<close>

text \<open>
  \<^verbatim>\<open>func (ip *InformationPacket) Atomize()\<close>: the loop sleeps and probes again until the
  temp file is there, then renames it. Nothing but the task itself changes the file
  system of the model, so a probe that fails once fails for ever, and the loop does not
  return: that is the value \<open>None\<close>. A rename of a file that is there succeeds.
\<close>

partial_function (option) Atomize :: "files \<Rightarrow> FileTarget \<Rightarrow> files option" where
  "Atomize fs ip =
     (if GetTempPath ip \<in> fs then Some (insert (GetPath ip) (fs - {GetTempPath ip}))
      else Atomize fs ip)"

lemma Atomize_Some:
  assumes "Atomize fs ip = Some fs'"
  shows "GetTempPath ip \<in> fs"
  using assms
proof (rule Atomize.raw_induct[rotated 1, where P = "\<lambda>fs ip fs'. GetTempPath ip \<in> fs"])
  fix A :: "files \<Rightarrow> FileTarget \<Rightarrow> files option" and fs ip fsa
  assume IH: "\<And>fs ip y. A fs ip = Some y \<Longrightarrow> GetTempPath ip \<in> fs"
    and step: "(if GetTempPath ip \<in> fs then Some (insert (GetPath ip) (fs - {GetTempPath ip}))
                else A fs ip) = Some fsa"
  show "GetTempPath ip \<in> fs"
  proof (rule ccontr)
    assume "GetTempPath ip \<notin> fs"
    with step have "A fs ip = Some fsa" by simp
    from IH[OF this] \<open>GetTempPath ip \<notin> fs\<close> show False by simp
  qed
qed

lemma Atomize_eq:
  "Atomize fs ip =
     (if GetTempPath ip \<in> fs then Some (insert (GetPath ip) (fs - {GetTempPath ip})) else None)"
proof (cases "GetTempPath ip \<in> fs")
  case True
  then show ?thesis by (subst Atomize.simps) simp
next
  case False
  then have "Atomize fs ip = None"
    using Atomize_Some[of fs ip] by (cases "Atomize fs ip") auto
  with False show ?thesis by simp
qed

subsection \<open>Execute\<close>

datatype event = RunCustom | RunBash string | Renamed string string | SendDone | CloseDone

datatype outcome = Returned files | Fatal error | Waiting

text \<open>\<^verbatim>\<open>atomizeTargets\<close>: the renames done, and the file system, or \<open>None\<close> when an \<open>Atomize\<close> waits for ever.\<close>

fun atomizeTargets :: "(string \<times> FileTarget) list \<Rightarrow> files \<Rightarrow> event list \<times> files option" where
  "atomizeTargets [] fs = ([], Some fs)"
| "atomizeTargets ((oname, tgt) # rest) fs =
     (if \<not> doStream tgt then
        (case Atomize fs tgt of
           None \<Rightarrow> ([], None)
         | Some fs' \<Rightarrow>
             (let (evs, r) = atomizeTargets rest fs'
              in (Renamed (GetTempPath tgt) (GetPath tgt) # evs, r)))
      else atomizeTargets rest fs)"

text \<open>
  The command of the task: the custom executor if there is one, otherwise
  \<^verbatim>\<open>bash -c\<close> on the formatted command. The effect of a shell command on the file
  system is a parameter, \<open>None\<close> for a command that fails (\<^verbatim>\<open>Check(err)\<close> in
  \<^verbatim>\<open>executeCommand\<close>).
\<close>

definition runCommand ::
  "(string \<Rightarrow> files \<Rightarrow> files option) \<Rightarrow> ShellTask \<Rightarrow> files \<Rightarrow> event \<times> (error + files)" where
  "runCommand bash t fs =
     (case CustomExecute t of
        Some f \<Rightarrow> (RunCustom, f (ShellTaskCore.truncate t) fs)
      | None \<Rightarrow>
          (RunBash (Command t),
           case bash (Command t) fs of
             None \<Rightarrow> Check (Some (CommandFailed (Command t))) (Inr fs)
           | Some fs' \<Rightarrow> Inr fs'))"

text \<open>
  \<^verbatim>\<open>func (t *ShellTask) Execute()\<close>: the events in the order in which they happen, and
  how the call ends. After a fatal error the program ends; what it still does while
  ending is not part of the model.
\<close>

definition Execute ::
  "(string \<Rightarrow> files \<Rightarrow> files option) \<Rightarrow> ShellTask \<Rightarrow> files \<Rightarrow> event list \<times> outcome" where
  "Execute bash t fs =
     (if \<not> anyOutputExists t fs \<and> \<not> fifosInOutTargetsMissing t fs then
        (case runCommand bash t fs of
           (ev, Inl e) \<Rightarrow> ([ev], Fatal e)
         | (ev, Inr fs1) \<Rightarrow>
             (case atomizeTargets (OutTargets t) fs1 of
                (evs, None) \<Rightarrow> (ev # evs, Waiting)
              | (evs, Some fs2) \<Rightarrow> (ev # evs @ [SendDone, CloseDone], Returned fs2)))
      else ([SendDone, CloseDone], Returned fs))"




text \<open>The renames of temp path to final path for the non-streaming targets, in order.\<close>

definition renames :: "(string \<times> FileTarget) list \<Rightarrow> event list" where
  "renames ots =
     map (\<lambda>(oname, tgt). Renamed (GetTempPath tgt) (GetPath tgt))
       (filter (\<lambda>(oname, tgt). \<not> doStream tgt) ots)"

lemma renames_simps [simp]:
  "renames [] = []"
  "renames ((oname, tgt) # rest) =
     (if \<not> doStream tgt then Renamed (GetTempPath tgt) (GetPath tgt) # renames rest else renames rest)"
  by (simp_all add: renames_def)














section \<open>Shell processes\<close>

text \<open>
  The ports of a shell process are channels held in maps by port name. An in-port or a
  parameter port is modelled like an inbound channel of the merger, by what will be
  received from the channel that the map holds when the process runs; for an out-port
  the map's key is kept, and what the process sends on it is part of the trace of
  \<^verbatim>\<open>Run\<close>. Different ports are taken to hold different channels.
\<close>

record ShellProcess =
  InPorts :: "(string \<times> FileTarget chan) list"
  OutPorts :: "string list"
  OutPortsDoStream :: "string \<rightharpoonup> bool"
  PathFormatters :: "(string \<times> (ShellTaskCore \<Rightarrow> error + string)) list"
  ParamPorts :: "(string \<times> string chan) list"
  CustomExecute_p :: "(ShellTaskCore \<Rightarrow> files \<Rightarrow> error + files) option"
  Prepend :: string
  CommandPattern :: string
  Spawn :: bool

definition NewShellProcess :: "string \<Rightarrow> ShellProcess" where
  "NewShellProcess command =
     \<lparr>InPorts = [], OutPorts = [], OutPortsDoStream = Map.empty, PathFormatters = [],
      ParamPorts = [], CustomExecute_p = None, Prepend = [], CommandPattern = command,
      Spawn = True\<rparr>"

text \<open>The assignment \<^verbatim>\<open>m[k] = v\<close> to a Go map.\<close>

fun mapSet :: "'k \<Rightarrow> 'v \<Rightarrow> ('k \<times> 'v) list \<Rightarrow> ('k \<times> 'v) list" where
  "mapSet k v [] = [(k, v)]"
| "mapSet k v ((k', v') # m) = (if k = k' then (k, v) # m else (k', v') # mapSet k v m)"

text \<open>
  The body of the loop of \<^verbatim>\<open>initPortsFromCmdPattern\<close> for one match. A match always
  has its three entries, so the check of \<^verbatim>\<open>len(m) < 3\<close> never fires. The channels made
  for an in-port and for a parameter port are given by \<open>inChan\<close> and \<open>paramChan\<close>;
  \<open>params\<close> is \<open>None\<close> for the \<^verbatim>\<open>nil\<close> map.
\<close>

definition initPort ::
  "(string \<Rightarrow> FileTarget chan) \<Rightarrow> (string \<Rightarrow> string chan) \<Rightarrow> (string \<rightharpoonup> string) option \<Rightarrow>
     string \<times> string \<times> string \<Rightarrow> ShellProcess \<Rightarrow> ShellProcess" where
  "initPort inChan paramChan params m p =
     (case m of (whole, typ, name) \<Rightarrow>
        if typ = ''o'' \<or> typ = ''os'' then
          (let p1 = p\<lparr>OutPorts := List.insert name (OutPorts p)\<rparr>
           in if typ = ''os'' then p1\<lparr>OutPortsDoStream := (OutPortsDoStream p1)(name \<mapsto> True)\<rparr> else p1)
        else if typ = ''i'' then p\<lparr>InPorts := mapSet name (inChan name) (InPorts p)\<rparr>
        else if typ = ''p'' then
          (if params = None \<or> paramValue (the params) name = [] then
             p\<lparr>ParamPorts := mapSet name (paramChan name) (ParamPorts p)\<rparr>
           else p)
        else p)"

definition initPortsFromCmdPattern ::
  "(string \<Rightarrow> FileTarget chan) \<Rightarrow> (string \<Rightarrow> string chan) \<Rightarrow> string \<Rightarrow>
     (string \<rightharpoonup> string) option \<Rightarrow> ShellProcess \<Rightarrow> ShellProcess" where
  "initPortsFromCmdPattern inChan paramChan cmd params p =
     foldl (\<lambda>p m. initPort inChan paramChan params m p) p (findAll cmd)"

text \<open>\<^verbatim>\<open>func Shell(cmd string) *ShellProcess\<close> (the set-up of the log is left out).\<close>

definition Shell :: "(string \<Rightarrow> FileTarget chan) \<Rightarrow> (string \<Rightarrow> string chan) \<Rightarrow> string \<Rightarrow> ShellProcess" where
  "Shell inChan paramChan cmd = initPortsFromCmdPattern inChan paramChan cmd None (NewShellProcess cmd)"

subsection \<open>Gathering inputs and parameters, creating tasks\<close>

text \<open>
  \<^verbatim>\<open>receiveInputs\<close> and \<^verbatim>\<open>receiveParams\<close> are the same loop over a map of
  channels: one receive per port; a closed port clears the open flag and is skipped.
  The result is the map of the received values, the open flag and the ports after the
  receives, or \<open>None\<close> when a receive blocks for ever.
\<close>

fun receiveAll ::
  "(string \<times> 'a chan) list \<Rightarrow> ((string \<times> 'a) list \<times> bool \<times> (string \<times> 'a chan) list) option" where
  "receiveAll [] = Some ([], True, [])"
| "receiveAll ((name, ch) # rest) =
     (case pending ch of
        x # xs \<Rightarrow>
          (case receiveAll rest of
             None \<Rightarrow> None
           | Some (got, opn, rest') \<Rightarrow> Some ((name, x) # got, opn, (name, ch\<lparr>pending := xs\<rparr>) # rest'))
      | [] \<Rightarrow>
          if closes ch then
            (case receiveAll rest of
               None \<Rightarrow> None
             | Some (got, opn, rest') \<Rightarrow> Some (got, False, (name, ch) # rest'))
          else None)"

definition receiveInputs ::
  "ShellProcess \<Rightarrow> ((string \<times> FileTarget) list \<times> bool \<times> (string \<times> FileTarget chan) list) option" where
  "receiveInputs p = receiveAll (InPorts p)"

definition receiveParams ::
  "ShellProcess \<Rightarrow> ((string \<times> string) list \<times> bool \<times> (string \<times> string chan) list) option" where
  "receiveParams p = receiveAll (ParamPorts p)"

definition port_load :: "(string \<times> 'a chan) list \<Rightarrow> nat" where
  "port_load ports = sum_list (map (\<lambda>(name, ch). length (pending ch)) ports)"

lemma receiveAll_load:
  "receiveAll ports = Some (got, opn, ports') \<Longrightarrow>
     length ports' = length ports \<and> port_load ports' \<le> port_load ports \<and>
     (ports = [] \<longrightarrow> opn) \<and> (opn \<and> ports \<noteq> [] \<longrightarrow> port_load ports' < port_load ports)"
proof (induction ports arbitrary: got opn ports')
  case Nil
  then show ?case by (simp add: port_load_def)
next
  case (Cons a ports)
  obtain name ch where a: "a = (name, ch)" by (cases a)
  show ?case
  proof (cases "pending ch")
    case Nil
    with Cons.prems a obtain got1 opn1 rest' where
      r: "receiveAll ports = Some (got1, opn1, rest')" and "opn = False" "ports' = (name, ch) # rest'"
      by (auto split: if_splits option.splits)
    with Cons.IH[OF r] a show ?thesis by (simp add: port_load_def)
  next
    case (Cons x xs)
    with Cons.prems a obtain got1 opn1 rest' where
      r: "receiveAll ports = Some (got1, opn1, rest')" and "opn = opn1"
      "ports' = (name, ch\<lparr>pending := xs\<rparr>) # rest'"
      by (auto split: if_splits option.splits)
    with Cons.IH[OF r] a Cons show ?thesis by (simp add: port_load_def)
  qed
qed

text \<open>How the loop of \<^verbatim>\<open>createTasks\<close> ends.\<close>

datatype ending = ChannelClosed | ReceiveBlocks | CreationFatal error

text \<open>
  The goroutine of \<^verbatim>\<open>createTasks\<close>: the number of gather iterations it performs, the
  tasks it sends on its channel, in order, and how it ends (when the loop ends the
  deferred close of the channel runs). The receiver of the channel, \<^verbatim>\<open>Run\<close>, is
  assumed to take every task.
\<close>

function createTasks :: "ShellProcess \<Rightarrow> nat \<times> ShellTask list \<times> ending" where
  "createTasks p =
     (case receiveInputs p of
        None \<Rightarrow> (1, [], ReceiveBlocks)
      | Some (inTargets, inPortsOpen, ins') \<Rightarrow>
          (case receiveParams (p\<lparr>InPorts := ins'\<rparr>) of
             None \<Rightarrow> (1, [], ReceiveBlocks)
           | Some (params, paramPortsOpen, ps') \<Rightarrow>
               if \<not> inPortsOpen \<and> \<not> paramPortsOpen then (1, [], ChannelClosed)
               else if length (InPorts p) = 0 \<and> \<not> paramPortsOpen then (1, [], ChannelClosed)
               else if length (ParamPorts p) = 0 \<and> \<not> inPortsOpen then (1, [], ChannelClosed)
               else
                 (case NewShellTask (CommandPattern p) inTargets (PathFormatters p)
                         (OutPortsDoStream p) params (Prepend p) of
                    Inl e \<Rightarrow> (1, [], CreationFatal e)
                  | Inr t0 \<Rightarrow>
                      (let t = (if CustomExecute_p p \<noteq> None
                                then t0\<lparr>CustomExecute := CustomExecute_p p\<rparr> else t0)
                       in if length (InPorts p) = 0 \<and> length (ParamPorts p) = 0 then
                            (1, [t], ChannelClosed)
                          else
                            (case createTasks (p\<lparr>InPorts := ins', ParamPorts := ps'\<rparr>) of
                               (n, ts, e) \<Rightarrow> (Suc n, t # ts, e))))))"
  by pat_completeness auto
termination
proof (relation "measure (\<lambda>p. port_load (InPorts p) + port_load (ParamPorts p))")
  show "wf (measure (\<lambda>p. port_load (InPorts p) + port_load (ParamPorts p)))" by simp
next
  fix p :: ShellProcess and x2 inTargets y inPortsOpen ins' x2a params ya paramPortsOpen ps' t0
    and t :: ShellTask
  assume ri: "receiveInputs p = Some x2" "(inTargets, y) = x2" "(inPortsOpen, ins') = y"
    and rp: "receiveParams (p\<lparr>InPorts := ins'\<rparr>) = Some x2a" "(params, ya) = x2a"
      "(paramPortsOpen, ps') = ya"
    and c1: "\<not> (\<not> inPortsOpen \<and> \<not> paramPortsOpen)"
    and c2: "\<not> (length (InPorts p) = 0 \<and> \<not> paramPortsOpen)"
    and c3: "\<not> (length (ParamPorts p) = 0 \<and> \<not> inPortsOpen)"
    and c4: "\<not> (length (InPorts p) = 0 \<and> length (ParamPorts p) = 0)"
  from ri have 1: "receiveAll (InPorts p) = Some (inTargets, inPortsOpen, ins')"
    by (simp add: receiveInputs_def)
  from rp have 2: "receiveAll (ParamPorts p) = Some (params, paramPortsOpen, ps')"
    by (simp add: receiveParams_def)
  from receiveAll_load[OF 1] receiveAll_load[OF 2] c1 c2 c3 c4
  show "(p\<lparr>InPorts := ins', ParamPorts := ps'\<rparr>, p)
          \<in> measure (\<lambda>p. port_load (InPorts p) + port_load (ParamPorts p))"
    by (cases "InPorts p = []"; cases "ParamPorts p = []"; cases inPortsOpen; cases paramPortsOpen)
       auto
qed

declare createTasks.simps [simp del]

subsection \<open>Which ports a template registers\<close>

lemma mapSet_keys: "fst ` set (mapSet k v m) = insert k (fst ` set m)"
proof (induction m)
  case Nil
  then show ?case by simp
next
  case (Cons a m)
  obtain k' v' where a: "a = (k', v')" by (cases a)
  show ?case
  proof (cases "k = k'")
    case True
    with a show ?thesis by simp
  next
    case False
    with a Cons.IH show ?thesis by (simp add: insert_commute)
  qed
qed

lemma initPort_names:
  "fst ` set (InPorts (initPort ic pc params (w, t, n) p)) =
      fst ` set (InPorts p) \<union> (if t = ''i'' then {n} else {}) \<and>
   set (OutPorts (initPort ic pc params (w, t, n) p)) =
      set (OutPorts p) \<union> (if t = ''o'' \<or> t = ''os'' then {n} else {}) \<and>
   fst ` set (ParamPorts (initPort ic pc params (w, t, n) p)) =
      fst ` set (ParamPorts p) \<union>
        (if t = ''p'' \<and> (params = None \<or> paramValue (the params) n = []) then {n} else {}) \<and>
   {x. OutPortsDoStream (initPort ic pc params (w, t, n) p) x = Some True} =
      {x. OutPortsDoStream p x = Some True} \<union> (if t = ''os'' then {n} else {})"
  by (auto simp: initPort_def mapSet_keys Let_def)

lemma initPorts_names:
  "fst ` set (InPorts (foldl (\<lambda>p m. initPort ic pc params m p) p ms)) =
      fst ` set (InPorts p) \<union> {n. \<exists>w. (w, ''i'', n) \<in> set ms} \<and>
   set (OutPorts (foldl (\<lambda>p m. initPort ic pc params m p) p ms)) =
      set (OutPorts p) \<union> {n. \<exists>w. (w, ''o'', n) \<in> set ms \<or> (w, ''os'', n) \<in> set ms} \<and>
   fst ` set (ParamPorts (foldl (\<lambda>p m. initPort ic pc params m p) p ms)) =
      fst ` set (ParamPorts p) \<union>
        {n. (\<exists>w. (w, ''p'', n) \<in> set ms) \<and> (params = None \<or> paramValue (the params) n = [])} \<and>
   {x. OutPortsDoStream (foldl (\<lambda>p m. initPort ic pc params m p) p ms) x = Some True} =
      {x. OutPortsDoStream p x = Some True} \<union> {n. \<exists>w. (w, ''os'', n) \<in> set ms}"
proof (induction ms arbitrary: p)
  case Nil
  then show ?case by simp
next
  case (Cons m ms)
  obtain w t n where m: "m = (w, t, n)" by (cases m)
  note step = initPort_names[of ic pc params w t n p]
  note IH = Cons.IH[of "initPort ic pc params (w, t, n) p"]
  have 1: "fst ` set (InPorts (foldl (\<lambda>p m. initPort ic pc params m p) p (m # ms))) =
      fst ` set (InPorts p) \<union> {n. \<exists>w. (w, ''i'', n) \<in> set (m # ms)}"
    using step IH m by auto
  have 2: "set (OutPorts (foldl (\<lambda>p m. initPort ic pc params m p) p (m # ms))) =
      set (OutPorts p) \<union> {n. \<exists>w. (w, ''o'', n) \<in> set (m # ms) \<or> (w, ''os'', n) \<in> set (m # ms)}"
    using step IH m by auto
  have 3: "fst ` set (ParamPorts (foldl (\<lambda>p m. initPort ic pc params m p) p (m # ms))) =
      fst ` set (ParamPorts p) \<union>
        {n. (\<exists>w. (w, ''p'', n) \<in> set (m # ms)) \<and> (params = None \<or> paramValue (the params) n = [])}"
    using step IH m by auto
  have 4: "{x. OutPortsDoStream (foldl (\<lambda>p m. initPort ic pc params m p) p (m # ms)) x = Some True} =
      {x. OutPortsDoStream p x = Some True} \<union> {n. \<exists>w. (w, ''os'', n) \<in> set (m # ms)}"
    using step IH m by auto
  from 1 2 3 4 show ?case by blast
qed

lemma Shell_names:
  "fst ` set (InPorts (Shell ic pc cmd)) = {n. \<exists>w. (w, ''i'', n) \<in> set (findAll cmd)} \<and>
   set (OutPorts (Shell ic pc cmd)) =
      {n. \<exists>w. (w, ''o'', n) \<in> set (findAll cmd) \<or> (w, ''os'', n) \<in> set (findAll cmd)} \<and>
   fst ` set (ParamPorts (Shell ic pc cmd)) = {n. \<exists>w. (w, ''p'', n) \<in> set (findAll cmd)} \<and>
   {x. OutPortsDoStream (Shell ic pc cmd) x = Some True} = {n. \<exists>w. (w, ''os'', n) \<in> set (findAll cmd)}"
  using initPorts_names[of ic pc None "NewShellProcess cmd" "findAll cmd"]
  by (simp add: Shell_def initPortsFromCmdPattern_def NewShellProcess_def)

lemma initPorts_fields:
  "CommandPattern (foldl (\<lambda>p m. initPort ic pc params m p) p ms) = CommandPattern p \<and>
   PathFormatters (foldl (\<lambda>p m. initPort ic pc params m p) p ms) = PathFormatters p \<and>
   Prepend (foldl (\<lambda>p m. initPort ic pc params m p) p ms) = Prepend p \<and>
   CustomExecute_p (foldl (\<lambda>p m. initPort ic pc params m p) p ms) = CustomExecute_p p"
proof (induction ms arbitrary: p)
  case Nil
  then show ?case by simp
next
  case (Cons m ms)
  obtain w t n where m: "m = (w, t, n)" by (cases m)
  have "CommandPattern (initPort ic pc params m p) = CommandPattern p \<and>
        PathFormatters (initPort ic pc params m p) = PathFormatters p \<and>
        Prepend (initPort ic pc params m p) = Prepend p \<and>
        CustomExecute_p (initPort ic pc params m p) = CustomExecute_p p"
    unfolding m by (simp add: initPort_def Let_def)
  with Cons.IH[of "initPort ic pc params m p"] show ?case by simp
qed

lemma Shell_fields:
  "CommandPattern (Shell ic pc cmd) = cmd \<and> PathFormatters (Shell ic pc cmd) = [] \<and>
   Prepend (Shell ic pc cmd) = [] \<and> CustomExecute_p (Shell ic pc cmd) = None"
  using initPorts_fields[of ic pc None "NewShellProcess cmd" "findAll cmd"]
  by (simp add: Shell_def initPortsFromCmdPattern_def NewShellProcess_def)

subsection \<open>A placeholder of kind \<open>is\<close>\<close>

lemma formatLoop_append:
  "formatLoop ins outs ps (xs @ ys) cmd =
     (case formatLoop ins outs ps xs cmd of Inl e \<Rightarrow> Inl e | Inr c \<Rightarrow> formatLoop ins outs ps ys c)"
  by (induction xs arbitrary: cmd) (auto split: sum.splits)

lemma formatStep_is: "formatStep ins outs ps (w, ''is'', n) c = Inl (ReplaceFailed n c)"
  by (simp add: formatStep_def newstrFor_def Check_def)

lemma binding_is: "binding ins outs ps ''is'' n = None"
  by (simp add: binding_def)

text \<open>
  Claim C10, amended. The ports that process construction registers for a template are
  the names of its placeholders of kind \<open>i\<close> (in-ports), \<open>o\<close> and \<open>os\<close> (out-ports, the
  latter streaming) and \<open>p\<close> (parameter ports): a placeholder of kind \<open>is\<close> registers
  nothing. For every template with a placeholder of kind \<open>is\<close>, construction of a task
  ends in a fatal error. It is the empty-substitution (\<^verbatim>\<open>Replace failed\<close>) error of the
  first such placeholder when the path formatters return and every placeholder before it
  has its binding; otherwise it is the earlier fatal error.
\<close>

theorem NewShellTask_is_placeholder:
  "fst ` set (InPorts (Shell ic pc cmd)) = {n. \<exists>w. (w, ''i'', n) \<in> set (findAll cmd)} \<and>
   set (OutPorts (Shell ic pc cmd)) =
      {n. \<exists>w. (w, ''o'', n) \<in> set (findAll cmd) \<or> (w, ''os'', n) \<in> set (findAll cmd)} \<and>
   fst ` set (ParamPorts (Shell ic pc cmd)) = {n. \<exists>w. (w, ''p'', n) \<in> set (findAll cmd)} \<and>
   {x. OutPortsDoStream (Shell ic pc cmd) x = Some True} = {n. \<exists>w. (w, ''os'', n) \<in> set (findAll cmd)} \<and>
   ((\<exists>w n. (w, ''is'', n) \<in> set (findAll cmd)) \<longrightarrow>
      isl (NewShellTask cmd inTargets fmts ds params prepend)) \<and>
   (\<forall>pre w n post ots.
      makeOutTargets \<lparr>InTargets = inTargets, OutTargets = [], Params = params, Command = []\<rparr> ds fmts
        = Inr ots \<and>
      findAll cmd = pre @ (w, ''is'', n) # post \<and>
      (\<forall>(w', t', n') \<in> set pre. binding (map_of inTargets) (map_of ots) (map_of params) t' n' \<noteq> None)
      \<longrightarrow> (\<exists>c. NewShellTask cmd inTargets fmts ds params prepend = Inl (ReplaceFailed n c)))"
proof -
  have B: "isl (NewShellTask cmd inTargets fmts ds params prepend)"
    if "\<exists>w n. (w, ''is'', n) \<in> set (findAll cmd)"
  proof -
    from that obtain w n where m: "(w, ''is'', n) \<in> set (findAll cmd)" by blast
    have L: "isl (formatLoop ins outs ps (findAll cmd) cmd)" for ins outs ps
      by (rule formatLoop_unbound) (use m binding_is in fastforce)
    have F: "isl (formatCommand cmd ins outs ps prepend)" for ins outs ps
      using L[of ins outs ps]
      by (cases "formatLoop ins outs ps (findAll cmd) cmd") (auto simp: formatCommand_def)
    show ?thesis
    proof (cases "makeOutTargets \<lparr>InTargets = inTargets, OutTargets = [], Params = params, Command = []\<rparr> ds fmts")
      case (Inl e)
      then show ?thesis by (simp add: NewShellTask_def)
    next
      case (Inr ots)
      with F[of "map_of inTargets" "map_of ots" "map_of params"] show ?thesis
        by (cases "formatCommand cmd (map_of inTargets) (map_of ots) (map_of params) prepend")
           (auto simp: NewShellTask_def)
    qed
  qed
  have C: "\<exists>c. NewShellTask cmd inTargets fmts ds params prepend = Inl (ReplaceFailed n c)"
    if mk: "makeOutTargets \<lparr>InTargets = inTargets, OutTargets = [], Params = params, Command = []\<rparr> ds fmts
        = Inr ots"
      and ms: "findAll cmd = pre @ (w, ''is'', n) # post"
      and bd: "\<forall>(w', t', n') \<in> set pre. binding (map_of inTargets) (map_of ots) (map_of params) t' n' \<noteq> None"
    for pre w n post ots
  proof -
    from formatLoop_bound[OF bd, of cmd] obtain c where
      c: "formatLoop (map_of inTargets) (map_of ots) (map_of params) pre cmd = Inr c" ..
    have "formatLoop (map_of inTargets) (map_of ots) (map_of params) (findAll cmd) cmd
            = Inl (ReplaceFailed n c)"
      unfolding ms formatLoop_append c by (simp add: formatStep_is)
    then have "NewShellTask cmd inTargets fmts ds params prepend = Inl (ReplaceFailed n c)"
      using mk by (simp add: NewShellTask_def formatCommand_def)
    then show ?thesis ..
  qed
  have P5: "(\<exists>w n. (w, ''is'', n) \<in> set (findAll cmd)) \<longrightarrow>
      isl (NewShellTask cmd inTargets fmts ds params prepend)"
    using B by (rule impI)
  have P6: "\<forall>pre w n post ots.
      makeOutTargets \<lparr>InTargets = inTargets, OutTargets = [], Params = params, Command = []\<rparr> ds fmts
        = Inr ots \<and>
      findAll cmd = pre @ (w, ''is'', n) # post \<and>
      (\<forall>(w', t', n') \<in> set pre. binding (map_of inTargets) (map_of ots) (map_of params) t' n' \<noteq> None)
      \<longrightarrow> (\<exists>c. NewShellTask cmd inTargets fmts ds params prepend = Inl (ReplaceFailed n c))"
  proof (intro allI impI)
    fix pre w n post ots
    assume a: "makeOutTargets \<lparr>InTargets = inTargets, OutTargets = [], Params = params, Command = []\<rparr> ds fmts
        = Inr ots \<and>
      findAll cmd = pre @ (w, ''is'', n) # post \<and>
      (\<forall>(w', t', n') \<in> set pre. binding (map_of inTargets) (map_of ots) (map_of params) t' n' \<noteq> None)"
    show "\<exists>c. NewShellTask cmd inTargets fmts ds params prepend = Inl (ReplaceFailed n c)"
      by (rule C[of ots pre w n post]) (use a in simp_all)
  qed
  note S = Shell_names[of ic pc cmd]
  show ?thesis
    apply (intro conjI)
         apply (rule S[THEN conjunct1])
        apply (rule S[THEN conjunct2, THEN conjunct1])
       apply (rule S[THEN conjunct2, THEN conjunct2, THEN conjunct1])
      apply (rule S[THEN conjunct2, THEN conjunct2, THEN conjunct2])
     apply (rule P5)
    apply (rule P6)
    done
qed

theorem NewShellTask_is_placeholder_witness:
  "findAll ''{o:x} {is:y}'' = [(''{o:x}'', ''o'', ''x''), (''{is:y}'', ''is'', ''y'')] \<and>
   OutPorts (Shell (\<lambda>n. \<lparr>pending = [], closes = True\<rparr>) (\<lambda>n. \<lparr>pending = [], closes = True\<rparr>) ''{o:x} {is:y}'') = [''x''] \<and>
   InPorts (Shell (\<lambda>n. \<lparr>pending = [], closes = True\<rparr>) (\<lambda>n. \<lparr>pending = [], closes = True\<rparr>) ''{o:x} {is:y}'') = [] \<and>
   ParamPorts (Shell (\<lambda>n. \<lparr>pending = [], closes = True\<rparr>) (\<lambda>n. \<lparr>pending = [], closes = True\<rparr>) ''{o:x} {is:y}'') = [] \<and>
   isl (NewShellTask ''{o:x} {is:y}'' [] [(''x'', \<lambda>t. Inr ''out.txt'')] Map.empty [] []) \<and>
   NewShellTask ''{o:x} {is:y}'' [] [(''x'', \<lambda>t. Inr ''out.txt'')] Map.empty [] []
     = Inl (ReplaceFailed ''y'' ''out.txt.tmp {is:y}'')"
proof -
  have 1: "findAll ''{o:x} {is:y}'' = [(''{o:x}'', ''o'', ''x''), (''{is:y}'', ''is'', ''y'')]"
    by code_simp
  have 2: "OutPorts (Shell (\<lambda>n. \<lparr>pending = [], closes = True\<rparr>) (\<lambda>n. \<lparr>pending = [], closes = True\<rparr>) ''{o:x} {is:y}'') = [''x'']"
    "InPorts (Shell (\<lambda>n. \<lparr>pending = [], closes = True\<rparr>) (\<lambda>n. \<lparr>pending = [], closes = True\<rparr>) ''{o:x} {is:y}'') = []" "ParamPorts (Shell (\<lambda>n. \<lparr>pending = [], closes = True\<rparr>) (\<lambda>n. \<lparr>pending = [], closes = True\<rparr>) ''{o:x} {is:y}'') = []"
    unfolding Shell_def initPortsFromCmdPattern_def 1
    by (simp_all add: initPort_def NewShellProcess_def)
  have r: "replaceAll ''{o:x} {is:y}'' ''{o:x}'' ''out.txt.tmp'' = ''out.txt.tmp {is:y}''"
    by code_simp
  have 3: "NewShellTask ''{o:x} {is:y}'' [] [(''x'', \<lambda>t. Inr ''out.txt'')] Map.empty [] []
     = Inl (ReplaceFailed ''y'' ''out.txt.tmp {is:y}'')"
    unfolding NewShellTask_def formatCommand_def 1
    by (simp add: formatStep_def newstrFor_def Check_def
        NewFileTarget_def doStreamOf_def GetTempPath_def r del: replaceAll.simps)
  have ex: "\<exists>w n. (w, ''is'', n) \<in> set (findAll ''{o:x} {is:y}'')"
    unfolding 1 by simp
  note T = NewShellTask_is_placeholder[of "\<lambda>n. \<lparr>pending = [], closes = True\<rparr>" "\<lambda>n. \<lparr>pending = [], closes = True\<rparr>" "''{o:x} {is:y}''" "[]"
      "[(''x'', \<lambda>t. Inr ''out.txt'')]" Map.empty "[]" "[]"]
  from T[THEN conjunct2, THEN conjunct2, THEN conjunct2, THEN conjunct2, THEN conjunct1] ex
  have 4: "isl (NewShellTask ''{o:x} {is:y}'' [] [(''x'', \<lambda>t. Inr ''out.txt'')] Map.empty [] [])"
    by (rule mp)
  from 1 2 3 4 show ?thesis by (intro conjI)
qed

text \<open>
  The claim as stated fails in the kind of the error: in the template
  \<^verbatim>\<open>{o:x} {is:y}\<close> with no path formatter for \<open>x\<close>, construction of the task ends
  in the missing-outpath error of the first placeholder, not in the empty-substitution
  error.
\<close>

theorem NewShellTask_counterexample:
  "findAll ''{o:x} {is:y}'' = [(''{o:x}'', ''o'', ''x''), (''{is:y}'', ''is'', ''y'')] \<and>
   NewShellTask ''{o:x} {is:y}'' [] [] Map.empty [] []
     = Inl (MissingOutpath ''x'' ''{o:x} {is:y}'')"
proof -
  have 1: "findAll ''{o:x} {is:y}'' = [(''{o:x}'', ''o'', ''x''), (''{is:y}'', ''is'', ''y'')]"
    by code_simp
  have 2: "NewShellTask ''{o:x} {is:y}'' [] [] Map.empty [] []
     = Inl (MissingOutpath ''x'' ''{o:x} {is:y}'')"
    unfolding NewShellTask_def formatCommand_def 1
    by (simp add: formatStep_def newstrFor_def Check_def del: replaceAll.simps)
  from 1 2 show ?thesis ..
qed

subsection \<open>A process without in-ports and parameter ports\<close>

text \<open>
  Claim C8, amended. A template without placeholders of kind \<open>i\<close> and \<open>p\<close> declares no
  in-port and no parameter port. A process with no in-port and no parameter port performs
  exactly one gather iteration; in it the task is constructed from empty inputs and
  parameters. If the construction succeeds, the loop sends exactly that one task and
  then ends, closing the channel of tasks; if the construction ends in a fatal error,
  no task is sent.
\<close>

theorem createTasks_single_shot:
  "(\<not> (\<exists>w n. (w, ''i'', n) \<in> set (findAll cmd)) \<and> \<not> (\<exists>w n. (w, ''p'', n) \<in> set (findAll cmd)) \<longrightarrow>
      InPorts (Shell ic pc cmd) = [] \<and> ParamPorts (Shell ic pc cmd) = []) \<and>
   (InPorts p = [] \<and> ParamPorts p = [] \<longrightarrow>
      createTasks p =
        (case NewShellTask (CommandPattern p) [] (PathFormatters p) (OutPortsDoStream p) [] (Prepend p) of
           Inl e \<Rightarrow> (1, [], CreationFatal e)
         | Inr t \<Rightarrow>
             (1, [if CustomExecute_p p \<noteq> None then t\<lparr>CustomExecute := CustomExecute_p p\<rparr> else t],
              ChannelClosed)))"
proof (rule conjI; rule impI)
  assume a: "\<not> (\<exists>w n. (w, ''i'', n) \<in> set (findAll cmd)) \<and> \<not> (\<exists>w n. (w, ''p'', n) \<in> set (findAll cmd))"
  note S = Shell_names[of ic pc cmd]
  from S[THEN conjunct1] a have "fst ` set (InPorts (Shell ic pc cmd)) = {}" by simp
  moreover from S[THEN conjunct2, THEN conjunct2, THEN conjunct1] a
  have "fst ` set (ParamPorts (Shell ic pc cmd)) = {}" by simp
  ultimately show "InPorts (Shell ic pc cmd) = [] \<and> ParamPorts (Shell ic pc cmd) = []" by simp
next
  assume e: "InPorts p = [] \<and> ParamPorts p = []"
  then have ri: "receiveInputs p = Some ([], True, [])"
    and rp: "receiveParams (p\<lparr>InPorts := []\<rparr>) = Some ([], True, [])"
    by (simp_all add: receiveInputs_def receiveParams_def)
  show "createTasks p =
        (case NewShellTask (CommandPattern p) [] (PathFormatters p) (OutPortsDoStream p) [] (Prepend p) of
           Inl e \<Rightarrow> (1, [], CreationFatal e)
         | Inr t \<Rightarrow>
             (1, [if CustomExecute_p p \<noteq> None then t\<lparr>CustomExecute := CustomExecute_p p\<rparr> else t],
              ChannelClosed))"
    by (subst createTasks.simps) (simp add: ri rp e Let_def split: sum.splits)
qed

theorem createTasks_single_shot_witness:
  "InPorts (Shell (\<lambda>n. \<lparr>pending = [], closes = True\<rparr>) (\<lambda>n. \<lparr>pending = [], closes = True\<rparr>) ''echo hi > {o:out}'') = [] \<and>
   ParamPorts (Shell (\<lambda>n. \<lparr>pending = [], closes = True\<rparr>) (\<lambda>n. \<lparr>pending = [], closes = True\<rparr>) ''echo hi > {o:out}'') = [] \<and>
   createTasks
     ((Shell (\<lambda>n. \<lparr>pending = [], closes = True\<rparr>) (\<lambda>n. \<lparr>pending = [], closes = True\<rparr>) ''echo hi > {o:out}'')
        \<lparr>PathFormatters := [(''out'', \<lambda>t. Inr ''hi.txt'')]\<rparr>)
     = (1, [\<lparr>InTargets = [], OutTargets = [(''out'', \<lparr>path = ''hi.txt'', doStream = False\<rparr>)],
              Params = [], Command = ''echo hi > hi.txt.tmp'', CustomExecute = None\<rparr>], ChannelClosed)"
proof -
  let ?ic = "\<lambda>n :: string. \<lparr>pending = [] :: FileTarget list, closes = True\<rparr>"
  let ?pc = "\<lambda>n :: string. \<lparr>pending = [] :: string list, closes = True\<rparr>"
  let ?cmd = "''echo hi > {o:out}''"
  let ?p = "(Shell ?ic ?pc ?cmd)\<lparr>PathFormatters := [(''out'', \<lambda>t. Inr ''hi.txt'')]\<rparr>"
  have 1: "findAll ?cmd = [(''{o:out}'', ''o'', ''out'')]" by code_simp
  have 2: "Shell ?ic ?pc ?cmd =
     \<lparr>InPorts = [], OutPorts = [''out''], OutPortsDoStream = Map.empty, PathFormatters = [],
      ParamPorts = [], CustomExecute_p = None, Prepend = [], CommandPattern = ?cmd, Spawn = True\<rparr>"
    unfolding Shell_def initPortsFromCmdPattern_def 1
    by (simp add: initPort_def NewShellProcess_def)
  have r: "replaceAll ?cmd ''{o:out}'' ''hi.txt.tmp'' = ''echo hi > hi.txt.tmp''" by code_simp
  have 3: "NewShellTask ?cmd [] [(''out'', \<lambda>t. Inr ''hi.txt'')] Map.empty [] []
     = Inr \<lparr>InTargets = [], OutTargets = [(''out'', \<lparr>path = ''hi.txt'', doStream = False\<rparr>)],
              Params = [], Command = ''echo hi > hi.txt.tmp'', CustomExecute = None\<rparr>"
    unfolding NewShellTask_def formatCommand_def 1
    by (simp add: formatStep_def newstrFor_def Check_def
        NewFileTarget_def doStreamOf_def GetTempPath_def r del: replaceAll.simps)
  note T = createTasks_single_shot[of ?cmd ?ic ?pc ?p]
  have "InPorts ?p = [] \<and> ParamPorts ?p = []" by (simp add: 2)
  with T[THEN conjunct2] have
    "createTasks ?p =
        (case NewShellTask (CommandPattern ?p) [] (PathFormatters ?p) (OutPortsDoStream ?p) [] (Prepend ?p) of
           Inl e \<Rightarrow> (1, [], CreationFatal e)
         | Inr t \<Rightarrow>
             (1, [if CustomExecute_p ?p \<noteq> None then t\<lparr>CustomExecute := CustomExecute_p ?p\<rparr> else t],
              ChannelClosed))"
    by (rule mp)
  then have 4: "createTasks ?p
     = (1, [\<lparr>InTargets = [], OutTargets = [(''out'', \<lparr>path = ''hi.txt'', doStream = False\<rparr>)],
              Params = [], Command = ''echo hi > hi.txt.tmp'', CustomExecute = None\<rparr>], ChannelClosed)"
    by (simp add: 2 3 del: findAll.simps replaceAll.simps)
  have 5: "InPorts (Shell ?ic ?pc ?cmd) = []" "ParamPorts (Shell ?ic ?pc ?cmd) = []"
    by (simp_all add: 2)
  from 5 4 show ?thesis by (intro conjI)
qed

text \<open>
  The claim as stated fails where the construction of the task is fatal: the template
  \<^verbatim>\<open>echo > {o:out}\<close> declares no in-port and no parameter port, and without a path
  formatter for \<open>out\<close> the one gather iteration ends in the missing-outpath error and no
  task is produced.
\<close>

theorem createTasks_counterexample:
  "InPorts (Shell (\<lambda>n. \<lparr>pending = [], closes = True\<rparr>) (\<lambda>n. \<lparr>pending = [], closes = True\<rparr>) ''echo > {o:out}'') = [] \<and>
   ParamPorts (Shell (\<lambda>n. \<lparr>pending = [], closes = True\<rparr>) (\<lambda>n. \<lparr>pending = [], closes = True\<rparr>) ''echo > {o:out}'') = [] \<and>
   createTasks (Shell (\<lambda>n. \<lparr>pending = [], closes = True\<rparr>) (\<lambda>n. \<lparr>pending = [], closes = True\<rparr>) ''echo > {o:out}'')
     = (1, [], CreationFatal (MissingOutpath ''out'' ''echo > {o:out}''))"
proof -
  let ?ic = "\<lambda>n :: string. \<lparr>pending = [] :: FileTarget list, closes = True\<rparr>"
  let ?pc = "\<lambda>n :: string. \<lparr>pending = [] :: string list, closes = True\<rparr>"
  let ?cmd = "''echo > {o:out}''"
  have 1: "findAll ?cmd = [(''{o:out}'', ''o'', ''out'')]" by code_simp
  have 2: "Shell ?ic ?pc ?cmd =
     \<lparr>InPorts = [], OutPorts = [''out''], OutPortsDoStream = Map.empty, PathFormatters = [],
      ParamPorts = [], CustomExecute_p = None, Prepend = [], CommandPattern = ?cmd, Spawn = True\<rparr>"
    unfolding Shell_def initPortsFromCmdPattern_def 1
    by (simp add: initPort_def NewShellProcess_def)
  have 3: "NewShellTask ?cmd [] [] Map.empty [] [] = Inl (MissingOutpath ''out'' ?cmd)"
    unfolding NewShellTask_def formatCommand_def 1
    by (simp add: formatStep_def newstrFor_def Check_def del: replaceAll.simps)
  have 4: "createTasks (Shell ?ic ?pc ?cmd) = (1, [], CreationFatal (MissingOutpath ''out'' ?cmd))"
    unfolding 2
    by (subst createTasks.simps)
       (simp add: receiveInputs_def receiveParams_def 3 del: findAll.simps replaceAll.simps)
  have 5: "InPorts (Shell ?ic ?pc ?cmd) = []" "ParamPorts (Shell ?ic ?pc ?cmd) = []"
    by (simp_all add: 2)
  from 5 4 show ?thesis by (intro conjI)
qed

section \<open>Running a shell process\<close>

text \<open>
  \<^verbatim>\<open>func (p *ShellProcess) Run()\<close>, as the sequence of events of its own goroutine.
  Tasks are numbered in the order in which \<^verbatim>\<open>createTasks\<close> sends them. The tasks that
  \<^verbatim>\<open>Run\<close> starts execute concurrently with it and share the file system with it and
  with each other; what each of them and each probe of \<^verbatim>\<open>Run\<close> finds there depends on
  the interleaving. So the file systems are parameters: \<open>probe i\<close> is the file system
  at the moment \<^verbatim>\<open>Run\<close> calls \<^verbatim>\<open>anyFifosExist\<close> for task \<open>i\<close>, and \<open>execfs i\<close> the
  file system that \<^verbatim>\<open>Execute\<close> of task \<open>i\<close> meets. Every statement below holds for all
  of them, hence for every interleaving.

  Creating the FIFOs is an event. A send on an out-port is a send on the channel that
  the map \<^verbatim>\<open>p.OutPorts\<close> holds for the name; for a name that is not a key the map gives
  the nil channel, on which a send blocks for ever. The readers of the out-ports are
  assumed to keep receiving.
\<close>

datatype run_event =
    CreateFifos nat
  | SendOut string nat FileTarget
  | GoExecute nat
  | GoSignal nat
  | RecvDone nat
  | CloseOutPorts

datatype run_end =
    RunReturned
  | SendBlocks string
  | DoneBlocks nat
  | RangeBlocks
  | ProgramEnds error

text \<open>
  The two loops \<^verbatim>\<open>for oname, otgt := range t.OutTargets\<close> of \<^verbatim>\<open>Run\<close>: the targets
  whose streaming flag is \<open>b\<close> are sent on the out-port of their name. The result is the
  sends done and, if a send blocks, the name of its port.
\<close>

fun sendTargets ::
  "string list \<Rightarrow> nat \<Rightarrow> bool \<Rightarrow> (string \<times> FileTarget) list \<Rightarrow> run_event list \<times> string option" where
  "sendTargets ports i b [] = ([], None)"
| "sendTargets ports i b ((oname, otgt) # rest) =
     (if doStream otgt = b then
        (if oname \<in> set ports then
           (case sendTargets ports i b rest of (evs, r) \<Rightarrow> (SendOut oname i otgt # evs, r))
         else ([], Some oname))
      else sendTargets ports i b rest)"

text \<open>The first loop of \<^verbatim>\<open>Run\<close>, over the tasks as they arrive, from task number \<open>i\<close> on.\<close>

fun schedule ::
  "string list \<Rightarrow> (nat \<Rightarrow> files) \<Rightarrow> nat \<Rightarrow> ShellTask list \<Rightarrow> run_event list \<times> string option" where
  "schedule ports probe i [] = ([], None)"
| "schedule ports probe i (t # ts) =
     (let anyPreviousFifosExists = anyFifosExist t (probe i);
          fifos = (if \<not> anyPreviousFifosExists then [CreateFifos i] else [])
      in case sendTargets ports i True (OutTargets t) of
           (sends, Some oname) \<Rightarrow> (fifos @ sends, Some oname)
         | (sends, None) \<Rightarrow>
             (case schedule ports probe (Suc i) ts of
                (evs, r) \<Rightarrow>
                  (fifos @ sends @ [if \<not> anyPreviousFifosExists then GoExecute i else GoSignal i] @ evs, r)))"

text \<open>
  The goroutine that only signals, \<^verbatim>\<open>go func() { defer close(t.Done); t.Done <- 1 }()\<close>,
  closes over the variable \<^verbatim>\<open>t\<close> of the loop \<^verbatim>\<open>for t := range p.createTasks()\<close>. That
  is one variable for all iterations (Go before version 1.22), which the loop overwrites
  with every task that arrives, while the goroutine runs concurrently. So the task on
  whose \<^verbatim>\<open>Done\<close> channel the goroutine of iteration \<open>i\<close> sends is the one it finds in
  \<^verbatim>\<open>t\<close> at that moment: task \<open>i\<close> or a later one. It is a parameter, \<open>seen i\<close>, like the
  file systems (with a variable per iteration, \<open>seen i = i\<close>). \<^verbatim>\<open>go t.Execute()\<close>
  evaluates its receiver when the statement runs, so an \<^verbatim>\<open>Execute\<close> signals its own task.

  What \<^verbatim>\<open>Run\<close> gets when it receives from \<^verbatim>\<open>t.Done\<close> of task \<open>i\<close>, all tasks before
  \<open>i\<close> having signalled. Where a FIFO of the task was found, only the goroutine of
  iteration \<open>i\<close> can signal: it gives the sentinel when it sends on the channel of task
  \<open>i\<close>, and nothing, for ever, when it sends on the channel of a later task (the
  goroutine of an earlier iteration that sends on the channel of task \<open>i\<close> has left its
  own task silent, and \<^verbatim>\<open>Run\<close> waits for that one). Otherwise \<^verbatim>\<open>Execute\<close> of the
  task runs: the sentinel when it returns, nothing, for ever, when it waits, and the end
  of the program when it is fatal.
\<close>

definition awaitDone ::
  "(string \<Rightarrow> files \<Rightarrow> files option) \<Rightarrow> (nat \<Rightarrow> files) \<Rightarrow> (nat \<Rightarrow> files) \<Rightarrow> (nat \<Rightarrow> nat) \<Rightarrow>
     nat \<Rightarrow> ShellTask \<Rightarrow> outcome" where
  "awaitDone bash probe execfs seen i t =
     (if anyFifosExist t (probe i) then (if seen i = i then Returned (probe i) else Waiting)
      else snd (Execute bash t (execfs i)))"

text \<open>The second loop of \<^verbatim>\<open>Run\<close>, from task number \<open>i\<close> on, and the deferred close of the out-ports.\<close>

fun collect ::
  "string list \<Rightarrow> (string \<Rightarrow> files \<Rightarrow> files option) \<Rightarrow> (nat \<Rightarrow> files) \<Rightarrow> (nat \<Rightarrow> files) \<Rightarrow>
     (nat \<Rightarrow> nat) \<Rightarrow> nat \<Rightarrow> ShellTask list \<Rightarrow> run_event list \<times> run_end" where
  "collect ports bash probe execfs seen i [] = ([CloseOutPorts], RunReturned)"
| "collect ports bash probe execfs seen i (t # ts) =
     (case awaitDone bash probe execfs seen i t of
        Fatal e \<Rightarrow> ([], ProgramEnds e)
      | Waiting \<Rightarrow> ([], DoneBlocks i)
      | Returned fs \<Rightarrow>
          (case sendTargets ports i False (OutTargets t) of
             (sends, Some oname) \<Rightarrow> (RecvDone i # sends, SendBlocks oname)
           | (sends, None) \<Rightarrow>
               (case collect ports bash probe execfs seen (Suc i) ts of
                  (evs, r) \<Rightarrow> (RecvDone i # sends @ evs, r))))"

definition Run ::
  "(string \<Rightarrow> files \<Rightarrow> files option) \<Rightarrow> (nat \<Rightarrow> files) \<Rightarrow> (nat \<Rightarrow> files) \<Rightarrow> (nat \<Rightarrow> nat) \<Rightarrow>
     ShellProcess \<Rightarrow> run_event list \<times> run_end" where
  "Run bash probe execfs seen p =
     (case createTasks p of
        (n, tasks, ending) \<Rightarrow>
          (case schedule (OutPorts p) probe 0 tasks of
             (evs, Some oname) \<Rightarrow> (evs, SendBlocks oname)
           | (evs, None) \<Rightarrow>
               (case ending of
                  ChannelClosed \<Rightarrow>
                    (case collect (OutPorts p) bash probe execfs seen 0 tasks of
                       (evs2, r) \<Rightarrow> (evs @ evs2, r))
                | ReceiveBlocks \<Rightarrow> (evs, RangeBlocks)
                | CreationFatal e \<Rightarrow> (evs, ProgramEnds e))))"

subsection \<open>The run in which nothing blocks or fails\<close>

definition sendsOf :: "nat \<Rightarrow> bool \<Rightarrow> (string \<times> FileTarget) list \<Rightarrow> run_event list" where
  "sendsOf i b ots = map (\<lambda>(oname, otgt). SendOut oname i otgt) (filter (\<lambda>(oname, otgt). doStream otgt = b) ots)"

fun ideal_schedule :: "(nat \<Rightarrow> files) \<Rightarrow> nat \<Rightarrow> ShellTask list \<Rightarrow> run_event list" where
  "ideal_schedule probe i [] = []"
| "ideal_schedule probe i (t # ts) =
     (if \<not> anyFifosExist t (probe i) then [CreateFifos i] else [])
       @ sendsOf i True (OutTargets t)
       @ [if \<not> anyFifosExist t (probe i) then GoExecute i else GoSignal i]
       @ ideal_schedule probe (Suc i) ts"

fun ideal_collect :: "nat \<Rightarrow> ShellTask list \<Rightarrow> run_event list" where
  "ideal_collect i [] = []"
| "ideal_collect i (t # ts) = RecvDone i # sendsOf i False (OutTargets t) @ ideal_collect (Suc i) ts"

definition ideal_run :: "(nat \<Rightarrow> files) \<Rightarrow> ShellTask list \<Rightarrow> run_event list" where
  "ideal_run probe tasks = ideal_schedule probe 0 tasks @ ideal_collect 0 tasks @ [CloseOutPorts]"

lemma sendTargets_prefix:
  "prefix (fst (sendTargets ports i b ots)) (sendsOf i b ots) \<and>
   (snd (sendTargets ports i b ots) = None \<longrightarrow> fst (sendTargets ports i b ots) = sendsOf i b ots)"
proof (induction ots)
  case Nil
  then show ?case by (simp add: sendsOf_def)
next
  case (Cons a ots)
  obtain oname otgt where a: "a = (oname, otgt)" by (cases a)
  show ?case
  proof (cases "doStream otgt = b")
    case False
    with Cons a show ?thesis by (simp add: sendsOf_def)
  next
    case True
    show ?thesis
    proof (cases "oname \<in> set ports")
      case False
      with True a show ?thesis by (simp add: sendsOf_def)
    next
      case p: True
      with True a Cons show ?thesis by (simp add: sendsOf_def split_beta)
    qed
  qed
qed

lemma sendTargets_all:
  "\<forall>(oname, otgt) \<in> set ots. oname \<in> set ports \<Longrightarrow>
     sendTargets ports i b ots = (sendsOf i b ots, None)"
proof (induction ots)
  case Nil
  then show ?case by (simp add: sendsOf_def)
next
  case (Cons a ots)
  obtain oname otgt where a: "a = (oname, otgt)" by (cases a)
  from Cons.prems have "\<forall>(oname, otgt) \<in> set ots. oname \<in> set ports" by simp
  from Cons.IH[OF this] Cons.prems a show ?case by (simp add: sendsOf_def)
qed

lemma schedule_prefix:
  "prefix (fst (schedule ports probe i ts)) (ideal_schedule probe i ts) \<and>
   (snd (schedule ports probe i ts) = None \<longrightarrow>
      fst (schedule ports probe i ts) = ideal_schedule probe i ts)"
proof (induction ts arbitrary: i)
  case Nil
  then show ?case by simp
next
  case (Cons t ts)
  obtain sends r where s: "sendTargets ports i True (OutTargets t) = (sends, r)"
    by (cases "sendTargets ports i True (OutTargets t)")
  from sendTargets_prefix[of ports i True "OutTargets t"] s
  have sp: "prefix sends (sendsOf i True (OutTargets t))"
    and se: "r = None \<longrightarrow> sends = sendsOf i True (OutTargets t)" by auto
  show ?case
  proof (cases r)
    case (Some oname)
    from sp obtain z where "sendsOf i True (OutTargets t) = sends @ z" by (auto simp: prefix_def)
    with Some s show ?thesis by (simp add: Let_def)
  next
    case None
    with se have "sends = sendsOf i True (OutTargets t)" by simp
    with None s Cons.IH[of "Suc i"] show ?thesis by (simp add: Let_def split_beta)
  qed
qed

lemma schedule_all:
  "\<forall>t \<in> set ts. \<forall>(oname, otgt) \<in> set (OutTargets t). oname \<in> set ports \<Longrightarrow>
     schedule ports probe i ts = (ideal_schedule probe i ts, None)"
proof (induction ts arbitrary: i)
  case Nil
  then show ?case by simp
next
  case (Cons t ts)
  from Cons.prems have 1: "\<forall>(oname, otgt) \<in> set (OutTargets t). oname \<in> set ports"
    and 2: "\<forall>t \<in> set ts. \<forall>(oname, otgt) \<in> set (OutTargets t). oname \<in> set ports" by auto
  from sendTargets_all[OF 1, of i True] Cons.IH[OF 2, of "Suc i"] show ?case
    by (simp add: Let_def)
qed

lemma collect_prefix:
  "prefix (fst (collect ports bash probe execfs seen i ts)) (ideal_collect i ts @ [CloseOutPorts]) \<and>
   (snd (collect ports bash probe execfs seen i ts) = RunReturned \<longrightarrow>
      fst (collect ports bash probe execfs seen i ts) = ideal_collect i ts @ [CloseOutPorts])"
proof (induction ts arbitrary: i)
  case Nil
  then show ?case by simp
next
  case (Cons t ts)
  show ?case
  proof (cases "awaitDone bash probe execfs seen i t")
    case (Fatal e)
    then show ?thesis by simp
  next
    case Waiting
    then show ?thesis by simp
  next
    case (Returned fs)
    obtain sends r where s: "sendTargets ports i False (OutTargets t) = (sends, r)"
      by (cases "sendTargets ports i False (OutTargets t)")
    from sendTargets_prefix[of ports i False "OutTargets t"] s
    have sp: "prefix sends (sendsOf i False (OutTargets t))"
      and se: "r = None \<longrightarrow> sends = sendsOf i False (OutTargets t)" by auto
    show ?thesis
    proof (cases r)
      case (Some oname)
      from sp obtain z where "sendsOf i False (OutTargets t) = sends @ z" by (auto simp: prefix_def)
      with Some s Returned show ?thesis by simp
    next
      case None
      with se have "sends = sendsOf i False (OutTargets t)" by simp
      with None s Returned Cons.IH[of "Suc i"] show ?thesis by (simp add: split_beta)
    qed
  qed
qed

text \<open>The tasks that \<open>createTasks\<close> sends.\<close>

definition tasksOf :: "ShellProcess \<Rightarrow> ShellTask list" where
  "tasksOf p = fst (snd (createTasks p))"

lemma Run_prefix:
  "prefix (fst (Run bash probe execfs seen p)) (ideal_run probe (tasksOf p)) \<and>
   (snd (Run bash probe execfs seen p) = RunReturned \<longrightarrow>
      fst (Run bash probe execfs seen p) = ideal_run probe (tasksOf p))"
proof -
  obtain n tasks ending where c: "createTasks p = (n, tasks, ending)"
    by (cases "createTasks p") auto
  then have t: "tasksOf p = tasks" by (simp add: tasksOf_def)
  obtain evs r where s: "schedule (OutPorts p) probe 0 tasks = (evs, r)"
    by (cases "schedule (OutPorts p) probe 0 tasks")
  from schedule_prefix[of "OutPorts p" probe 0 tasks] s
  have sp: "prefix evs (ideal_schedule probe 0 tasks)"
    and se: "r = None \<longrightarrow> evs = ideal_schedule probe 0 tasks" by auto
  from sp have sp': "prefix evs (ideal_run probe tasks)"
    by (metis ideal_run_def prefix_prefix)
  show ?thesis
  proof (cases r)
    case (Some oname)
    with c s sp' t show ?thesis by (simp add: Run_def)
  next
    case None
    with se have e: "evs = ideal_schedule probe 0 tasks" by simp
    show ?thesis
    proof (cases ending)
      case ChannelClosed
      obtain evs2 r2 where c2: "collect (OutPorts p) bash probe execfs seen 0 tasks = (evs2, r2)"
        by (cases "collect (OutPorts p) bash probe execfs seen 0 tasks")
      from collect_prefix[of "OutPorts p" bash probe execfs seen 0 tasks] c2
      have "prefix evs2 (ideal_collect 0 tasks @ [CloseOutPorts])"
        and "r2 = RunReturned \<longrightarrow> evs2 = ideal_collect 0 tasks @ [CloseOutPorts]" by auto
      with c s None e ChannelClosed c2 t show ?thesis
        by (simp add: Run_def ideal_run_def)
    next
      case ReceiveBlocks
      with c s None sp' t show ?thesis by (simp add: Run_def)
    next
      case (CreationFatal x)
      with c s None sp' t show ?thesis by (simp add: Run_def)
    qed
  qed
qed

subsection \<open>The order of the events\<close>

text \<open>
  Every event has a place in the run: the loop it belongs to, the number of its task,
  and its step within the iteration for that task.
\<close>

fun place :: "run_event \<Rightarrow> nat \<times> nat \<times> nat" where
  "place (CreateFifos i) = (0, i, 0)"
| "place (SendOut oname i otgt) = (if doStream otgt then (0, i, 1) else (1, i, 1))"
| "place (GoExecute i) = (0, i, 2)"
| "place (GoSignal i) = (0, i, 2)"
| "place (RecvDone i) = (1, i, 0)"
| "place CloseOutPorts = (2, 0, 0)"

definition not_later :: "run_event \<Rightarrow> run_event \<Rightarrow> bool" where
  "not_later e1 e2 =
     (case place e1 of (a, b, c) \<Rightarrow> case place e2 of (a', b', c') \<Rightarrow>
        a < a' \<or> (a = a' \<and> (b < b' \<or> (b = b' \<and> c \<le> c'))))"

lemma sorted_wrt_all: "(\<forall>x \<in> set xs. \<forall>y \<in> set xs. R x y) \<Longrightarrow> sorted_wrt R xs"
  by (induction xs) auto

lemma place_sendsOf:
  "e \<in> set (sendsOf i b ots) \<Longrightarrow> place e = (if b then (0, i, 1) else (1, i, 1))"
  by (auto simp: sendsOf_def)

lemma place_ideal_schedule:
  "e \<in> set (ideal_schedule probe i ts) \<Longrightarrow> fst (place e) = 0 \<and> i \<le> fst (snd (place e))"
proof (induction ts arbitrary: i)
  case Nil
  then show ?case by simp
next
  case (Cons t ts)
  from Cons.prems consider "e = CreateFifos i" | "e \<in> set (sendsOf i True (OutTargets t))"
    | "e = GoExecute i" | "e = GoSignal i" | "e \<in> set (ideal_schedule probe (Suc i) ts)"
    by (auto split: if_splits)
  then show ?case
  proof cases
    case 2
    from place_sendsOf[OF this] show ?thesis by simp
  next
    case 5
    from Cons.IH[OF this] show ?thesis by simp
  qed simp_all
qed

lemma place_ideal_collect:
  "e \<in> set (ideal_collect i ts) \<Longrightarrow> fst (place e) = 1 \<and> i \<le> fst (snd (place e))"
proof (induction ts arbitrary: i)
  case Nil
  then show ?case by simp
next
  case (Cons t ts)
  from Cons.prems consider "e = RecvDone i" | "e \<in> set (sendsOf i False (OutTargets t))"
    | "e \<in> set (ideal_collect (Suc i) ts)"
    by auto
  then show ?case
  proof cases
    case 2
    from place_sendsOf[OF this] show ?thesis by simp
  next
    case 3
    from Cons.IH[OF this] show ?thesis by simp
  qed simp_all
qed

lemma sorted_ideal_schedule: "sorted_wrt not_later (ideal_schedule probe i ts)"
proof (induction ts arbitrary: i)
  case Nil
  then show ?case by simp
next
  case (Cons t ts)
  let ?fifos = "if \<not> anyFifosExist t (probe i) then [CreateFifos i] else []"
  let ?sends = "sendsOf i True (OutTargets t)"
  let ?go = "if \<not> anyFifosExist t (probe i) then GoExecute i else GoSignal i"
  let ?rest = "ideal_schedule probe (Suc i) ts"
  have ps: "\<And>e. e \<in> set ?sends \<Longrightarrow> place e = (0, i, 1)"
    using place_sendsOf[of _ i True "OutTargets t"] by simp
  have pr: "\<And>e. e \<in> set ?rest \<Longrightarrow> fst (place e) = 0 \<and> Suc i \<le> fst (snd (place e))"
    using place_ideal_schedule by blast
  have 1: "sorted_wrt not_later ?sends"
    by (rule sorted_wrt_all) (auto simp: not_later_def dest!: ps)
  have 2: "sorted_wrt not_later ?rest" by (rule Cons.IH)
  have 3: "\<forall>x \<in> set ?sends. not_later x ?go"
    by (auto simp: not_later_def dest!: ps)
  have 4: "\<forall>x \<in> set ?sends. \<forall>y \<in> set ?rest. not_later x y"
  proof (intro ballI)
    fix x y assume "x \<in> set ?sends" "y \<in> set ?rest"
    from ps[OF this(1)] pr[OF this(2)] show "not_later x y"
      by (cases "place y") (auto simp: not_later_def)
  qed
  have 5: "\<forall>y \<in> set ?rest. not_later ?go y \<and> not_later (CreateFifos i) y"
  proof (intro ballI)
    fix y assume "y \<in> set ?rest"
    from pr[OF this] show "not_later ?go y \<and> not_later (CreateFifos i) y"
      by (cases "place y") (auto simp: not_later_def)
  qed
  have 6: "\<forall>y \<in> set ?sends. not_later (CreateFifos i) y"
    by (auto simp: not_later_def dest!: ps)
  have 7: "not_later (CreateFifos i) ?go" by (simp add: not_later_def)
  have "sorted_wrt not_later (?fifos @ ?sends @ [?go] @ ?rest)"
    using 1 2 3 4 5 6 7 by (auto simp: sorted_wrt_append)
  then show ?case by simp
qed

lemma sorted_ideal_collect: "sorted_wrt not_later (ideal_collect i ts)"
proof (induction ts arbitrary: i)
  case Nil
  then show ?case by simp
next
  case (Cons t ts)
  let ?sends = "sendsOf i False (OutTargets t)"
  let ?rest = "ideal_collect (Suc i) ts"
  have ps: "\<And>e. e \<in> set ?sends \<Longrightarrow> place e = (1, i, 1)"
    using place_sendsOf[of _ i False "OutTargets t"] by simp
  have pr: "\<And>e. e \<in> set ?rest \<Longrightarrow> fst (place e) = 1 \<and> Suc i \<le> fst (snd (place e))"
    using place_ideal_collect by blast
  have 1: "sorted_wrt not_later ?sends"
    by (rule sorted_wrt_all) (auto simp: not_later_def dest!: ps)
  have 2: "sorted_wrt not_later ?rest" by (rule Cons.IH)
  have 3: "\<forall>x \<in> set ?sends. \<forall>y \<in> set ?rest. not_later x y"
  proof (intro ballI)
    fix x y assume "x \<in> set ?sends" "y \<in> set ?rest"
    from ps[OF this(1)] pr[OF this(2)] show "not_later x y"
      by (cases "place y") (auto simp: not_later_def)
  qed
  have 4: "\<forall>y \<in> set ?rest. not_later (RecvDone i) y"
  proof (intro ballI)
    fix y assume "y \<in> set ?rest"
    from pr[OF this] show "not_later (RecvDone i) y"
      by (cases "place y") (auto simp: not_later_def)
  qed
  have 5: "\<forall>y \<in> set ?sends. not_later (RecvDone i) y"
    by (auto simp: not_later_def dest!: ps)
  have "sorted_wrt not_later (RecvDone i # ?sends @ ?rest)"
    using 1 2 3 4 5 by (auto simp: sorted_wrt_append)
  then show ?case by simp
qed

lemma sorted_ideal_run: "sorted_wrt not_later (ideal_run probe tasks)"
proof -
  have a: "\<forall>x \<in> set (ideal_schedule probe 0 tasks). \<forall>y \<in> set (ideal_collect 0 tasks). not_later x y"
  proof (intro ballI)
    fix x y assume "x \<in> set (ideal_schedule probe 0 tasks)" "y \<in> set (ideal_collect 0 tasks)"
    from place_ideal_schedule[OF this(1)] place_ideal_collect[OF this(2)] show "not_later x y"
      by (cases "place x"; cases "place y") (auto simp: not_later_def)
  qed
  have b: "\<forall>x \<in> set (ideal_schedule probe 0 tasks). not_later x CloseOutPorts"
  proof (intro ballI)
    fix x assume "x \<in> set (ideal_schedule probe 0 tasks)"
    from place_ideal_schedule[OF this] show "not_later x CloseOutPorts"
      by (cases "place x") (auto simp: not_later_def)
  qed
  have c: "\<forall>x \<in> set (ideal_collect 0 tasks). not_later x CloseOutPorts"
  proof (intro ballI)
    fix x assume "x \<in> set (ideal_collect 0 tasks)"
    from place_ideal_collect[OF this] show "not_later x CloseOutPorts"
      by (cases "place x") (auto simp: not_later_def)
  qed
  from a b c sorted_ideal_schedule[of probe 0 tasks] sorted_ideal_collect[of 0 tasks]
  show ?thesis by (auto simp: ideal_run_def sorted_wrt_append)
qed

subsection \<open>Which events an unblocked run has\<close>

lemma ideal_schedule_streaming_send:
  "i0 \<le> i \<Longrightarrow> i < i0 + length ts \<Longrightarrow> (oname, otgt) \<in> set (OutTargets (ts ! (i - i0))) \<Longrightarrow>
     doStream otgt \<Longrightarrow> SendOut oname i otgt \<in> set (ideal_schedule probe i0 ts)"
proof (induction ts arbitrary: i0)
  case Nil
  then show ?case by simp
next
  case (Cons t ts)
  show ?case
  proof (cases "i = i0")
    case True
    with Cons.prems have "SendOut oname i otgt \<in> set (sendsOf i0 True (OutTargets t))"
      by (force simp: sendsOf_def)
    then show ?thesis by simp
  next
    case False
    with Cons.prems have a: "Suc i0 \<le> i" "i < Suc i0 + length ts" by auto
    then have "i - i0 = Suc (i - Suc i0)" by simp
    then have "(t # ts) ! (i - i0) = ts ! (i - Suc i0)" by simp
    with Cons.prems(3) have "(oname, otgt) \<in> set (OutTargets (ts ! (i - Suc i0)))" by simp
    from Cons.IH[OF a this Cons.prems(4)] show ?thesis by simp
  qed
qed

lemma ideal_schedule_go:
  "GoExecute i \<in> set (ideal_schedule probe i0 ts) \<Longrightarrow> i0 \<le> i \<and> i < i0 + length ts"
proof (induction ts arbitrary: i0)
  case Nil
  then show ?case by simp
next
  case (Cons t ts)
  from Cons.prems consider "i = i0" | "GoExecute i \<in> set (ideal_schedule probe (Suc i0) ts)"
    by (auto simp: sendsOf_def split: if_splits)
  then show ?case
  proof cases
    case 1
    then show ?thesis by simp
  next
    case 2
    from Cons.IH[OF this] show ?thesis by simp
  qed
qed

lemma ideal_collect_recv:
  "i0 \<le> i \<Longrightarrow> i < i0 + length ts \<Longrightarrow> RecvDone i \<in> set (ideal_collect i0 ts)"
proof (induction ts arbitrary: i0)
  case Nil
  then show ?case by simp
next
  case (Cons t ts)
  show ?case
  proof (cases "i = i0")
    case True
    then show ?thesis by simp
  next
    case False
    with Cons.prems have "Suc i0 \<le> i" "i < Suc i0 + length ts" by auto
    from Cons.IH[OF this] show ?thesis by simp
  qed
qed

lemma ideal_collect_send:
  "SendOut oname i otgt \<in> set (ideal_collect i0 ts) \<Longrightarrow> i0 \<le> i \<and> i < i0 + length ts"
proof (induction ts arbitrary: i0)
  case Nil
  then show ?case by simp
next
  case (Cons t ts)
  from Cons.prems consider "SendOut oname i otgt \<in> set (sendsOf i0 False (OutTargets t))"
    | "SendOut oname i otgt \<in> set (ideal_collect (Suc i0) ts)"
    by auto
  then show ?case
  proof cases
    case 1
    then have "i = i0" by (auto simp: sendsOf_def)
    then show ?thesis by simp
  next
    case 2
    from Cons.IH[OF this] show ?thesis by simp
  qed
qed

subsection \<open>The sends on one out-port\<close>

fun nonstream_on :: "string \<Rightarrow> run_event \<Rightarrow> bool" where
  "nonstream_on p (SendOut oname i otgt) = (oname = p \<and> \<not> doStream otgt)"
| "nonstream_on p e = False"

fun task_no :: "run_event \<Rightarrow> nat" where
  "task_no e = fst (snd (place e))"

text \<open>The non-streaming targets that the tasks have for the out-port \<open>p\<close>, task after task.\<close>

fun port_sends :: "string \<Rightarrow> nat \<Rightarrow> ShellTask list \<Rightarrow> run_event list" where
  "port_sends p i [] = []"
| "port_sends p i (t # ts) =
     map (\<lambda>(oname, otgt). SendOut oname i otgt)
       (filter (\<lambda>(oname, otgt). oname = p \<and> \<not> doStream otgt) (OutTargets t))
     @ port_sends p (Suc i) ts"

lemma filter_nonstream_sendsOf:
  "filter (nonstream_on p) (sendsOf i b ots) =
     (if b then []
      else map (\<lambda>(oname, otgt). SendOut oname i otgt)
             (filter (\<lambda>(oname, otgt). oname = p \<and> \<not> doStream otgt) ots))"
  by (induction ots) (auto simp: sendsOf_def)

lemma filter_nonstream_schedule: "filter (nonstream_on p) (ideal_schedule probe i ts) = []"
  by (induction ts arbitrary: i) (simp_all add: filter_nonstream_sendsOf)

lemma filter_nonstream_collect: "filter (nonstream_on p) (ideal_collect i ts) = port_sends p i ts"
  by (induction ts arbitrary: i) (simp_all add: filter_nonstream_sendsOf)

lemma filter_nonstream_run: "filter (nonstream_on p) (ideal_run probe tasks) = port_sends p 0 tasks"
  by (simp add: ideal_run_def filter_nonstream_schedule filter_nonstream_collect)

lemma collect_recv:
  "RecvDone i \<in> set (fst (collect ports bash probe execfs seen i0 ts)) \<Longrightarrow>
     i0 \<le> i \<and> i < i0 + length ts \<and>
     (\<exists>fs. awaitDone bash probe execfs seen i (ts ! (i - i0)) = Returned fs)"
proof (induction ts arbitrary: i0)
  case Nil
  then show ?case by simp
next
  case (Cons t ts)
  show ?case
  proof (cases "awaitDone bash probe execfs seen i0 t")
    case (Fatal e)
    with Cons.prems show ?thesis by simp
  next
    case Waiting
    with Cons.prems show ?thesis by simp
  next
    case (Returned fs)
    obtain sends r where s: "sendTargets ports i0 False (OutTargets t) = (sends, r)"
      by (cases "sendTargets ports i0 False (OutTargets t)")
    from sendTargets_prefix[of ports i0 False "OutTargets t"] s
    have "set sends \<subseteq> set (sendsOf i0 False (OutTargets t))" by (auto dest: set_mono_prefix)
    then have ns: "RecvDone i \<notin> set sends" by (auto simp: sendsOf_def)
    show ?thesis
    proof (cases "i = i0")
      case True
      with Returned show ?thesis by auto
    next
      case False
      have "RecvDone i \<in> set (fst (collect ports bash probe execfs seen (Suc i0) ts))"
      proof (cases r)
        case (Some oname)
        with Cons.prems Returned s ns False show ?thesis by simp
      next
        case None
        with Cons.prems Returned s ns False show ?thesis by (simp add: split_beta)
      qed
      from Cons.IH[OF this] have a: "Suc i0 \<le> i" "i < Suc i0 + length ts"
        and b: "\<exists>fs. awaitDone bash probe execfs seen i (ts ! (i - Suc i0)) = Returned fs" by auto
      from a have "i - i0 = Suc (i - Suc i0)" by simp
      then have "(t # ts) ! (i - i0) = ts ! (i - Suc i0)" by simp
      with a b show ?thesis by simp
    qed
  qed
qed

lemma Run_recv:
  assumes "RecvDone i \<in> set (fst (Run bash probe execfs seen p))"
  shows "i < length (tasksOf p) \<and> (\<exists>fs. awaitDone bash probe execfs seen i (tasksOf p ! i) = Returned fs)"
proof -
  obtain n tasks ending where c: "createTasks p = (n, tasks, ending)"
    by (cases "createTasks p") auto
  then have t: "tasksOf p = tasks" by (simp add: tasksOf_def)
  obtain evs r where s: "schedule (OutPorts p) probe 0 tasks = (evs, r)"
    by (cases "schedule (OutPorts p) probe 0 tasks")
  from schedule_prefix[of "OutPorts p" probe 0 tasks] s
  have "set evs \<subseteq> set (ideal_schedule probe 0 tasks)" by (auto dest: set_mono_prefix)
  then have ne: "RecvDone i \<notin> set evs"
    using place_ideal_schedule[of "RecvDone i" probe 0 tasks] by auto
  have "RecvDone i \<in> set (fst (collect (OutPorts p) bash probe execfs seen 0 tasks))"
  proof (cases r)
    case (Some oname)
    with assms c s ne show ?thesis by (simp add: Run_def)
  next
    case None
    with assms c s ne show ?thesis
      by (cases ending) (auto simp: Run_def split_beta)
  qed
  from collect_recv[OF this] t show ?thesis by simp
qed

lemma sorted_wrt_prefix: "prefix xs ys \<Longrightarrow> sorted_wrt R ys \<Longrightarrow> sorted_wrt R xs"
  by (auto simp: prefix_def sorted_wrt_append)

lemma go_not_in_collect: "GoExecute i \<notin> set (ideal_collect i0 ts)"
  using place_ideal_collect[of "GoExecute i" i0 ts] by auto

lemma nonstream_not_in_schedule:
  "\<not> doStream otgt \<Longrightarrow> SendOut oname i otgt \<notin> set (ideal_schedule probe i0 ts)"
  using place_ideal_schedule[of "SendOut oname i otgt" probe i0 ts] by auto

text \<open>
  Claim C4. At every moment of a run of a shell process, that is for every prefix of
  the events of \<^verbatim>\<open>Run\<close>: when the execution of task \<open>i\<close> has been started, every
  streaming output IP of that task has been sent on the out-port of its name before, and
  none is sent after; a non-streaming output IP of task \<open>i\<close> is sent only after \<^verbatim>\<open>Run\<close>
  has received from the \<^verbatim>\<open>Done\<close> channel of task \<open>i\<close>, which happens only if that task
  signals done; and on every out-port the non-streaming IPs sent so far are the first
  ones of the list of the non-streaming targets that the tasks have for this port, in
  the order in which the tasks were created, so their task numbers never decrease. When
  \<^verbatim>\<open>Run\<close> returns, all of that list has been sent.
\<close>

theorem Run_output_order:
  assumes "prefix tr (fst (Run bash probe execfs seen p))"
  shows "(\<forall>xs ys i. tr = xs @ GoExecute i # ys \<longrightarrow>
            i < length (tasksOf p) \<and>
            (\<forall>(oname, otgt) \<in> set (OutTargets (tasksOf p ! i)).
               doStream otgt \<longrightarrow> SendOut oname i otgt \<in> set xs) \<and>
            (\<forall>oname otgt. doStream otgt \<longrightarrow> SendOut oname i otgt \<notin> set ys)) \<and>
         (\<forall>xs ys oname i otgt. tr = xs @ SendOut oname i otgt # ys \<and> \<not> doStream otgt \<longrightarrow>
            RecvDone i \<in> set xs \<and> i < length (tasksOf p) \<and>
            (\<exists>fs. awaitDone bash probe execfs seen i (tasksOf p ! i) = Returned fs)) \<and>
         (\<forall>port. prefix (filter (nonstream_on port) tr) (port_sends port 0 (tasksOf p)) \<and>
                 sorted (map task_no (filter (nonstream_on port) tr))) \<and>
         (snd (Run bash probe execfs seen p) = RunReturned \<longrightarrow>
            (\<forall>port. filter (nonstream_on port) (fst (Run bash probe execfs seen p))
                      = port_sends port 0 (tasksOf p)))"
proof -
  let ?tasks = "tasksOf p"
  let ?ideal = "ideal_run probe ?tasks"
  note RP = Run_prefix[of bash probe execfs seen p]
  from assms RP have pre: "prefix tr ?ideal" by (meson prefix_order.trans)
  then obtain z where z: "?ideal = tr @ z" by (auto simp: prefix_def)
  note srt = sorted_ideal_run[of probe ?tasks]
  have S: "i < length ?tasks \<and>
            (\<forall>(oname, otgt) \<in> set (OutTargets (?tasks ! i)).
               doStream otgt \<longrightarrow> SendOut oname i otgt \<in> set xs) \<and>
            (\<forall>oname otgt. doStream otgt \<longrightarrow> SendOut oname i otgt \<notin> set ys)"
    if tr: "tr = xs @ GoExecute i # ys" for xs ys i
  proof -
    from z tr have id: "?ideal = xs @ GoExecute i # (ys @ z)" by simp
    from srt have after: "\<forall>y \<in> set (ys @ z). not_later (GoExecute i) y"
      unfolding id by (simp add: sorted_wrt_append)
    have "GoExecute i \<in> set ?ideal" unfolding id by simp
    then have "GoExecute i \<in> set (ideal_schedule probe 0 ?tasks)"
      using go_not_in_collect by (auto simp: ideal_run_def)
    from ideal_schedule_go[OF this] have i: "i < length ?tasks" by simp
    have nafter: "SendOut oname i otgt \<notin> set (ys @ z)" if "doStream otgt" for oname otgt
    proof
      assume "SendOut oname i otgt \<in> set (ys @ z)"
      with after have "not_later (GoExecute i) (SendOut oname i otgt)" by blast
      with that show False by (simp add: not_later_def)
    qed
    have before: "SendOut oname i otgt \<in> set xs"
      if m: "(oname, otgt) \<in> set (OutTargets (?tasks ! i))" and d: "doStream otgt" for oname otgt
    proof -
      from ideal_schedule_streaming_send[of 0 i ?tasks oname otgt probe] i m d
      have "SendOut oname i otgt \<in> set (ideal_schedule probe 0 ?tasks)" by simp
      then have "SendOut oname i otgt \<in> set ?ideal" by (simp add: ideal_run_def)
      with nafter[OF d] show ?thesis unfolding id by auto
    qed
    from i before nafter show ?thesis by auto
  qed
  have N: "RecvDone i \<in> set xs \<and> i < length ?tasks \<and>
            (\<exists>fs. awaitDone bash probe execfs seen i (?tasks ! i) = Returned fs)"
    if tr: "tr = xs @ SendOut oname i otgt # ys" and ns: "\<not> doStream otgt" for xs ys oname i otgt
  proof -
    from z tr have id: "?ideal = xs @ SendOut oname i otgt # (ys @ z)" by simp
    from srt have after: "\<forall>y \<in> set (ys @ z). not_later (SendOut oname i otgt) y"
      unfolding id by (simp add: sorted_wrt_append)
    have "SendOut oname i otgt \<in> set ?ideal" unfolding id by simp
    then have "SendOut oname i otgt \<in> set (ideal_collect 0 ?tasks)"
      using nonstream_not_in_schedule[OF ns] by (auto simp: ideal_run_def)
    from ideal_collect_send[OF this] have i: "i < length ?tasks" by simp
    from ideal_collect_recv[of 0 i ?tasks] i have "RecvDone i \<in> set ?ideal"
      by (simp add: ideal_run_def)
    moreover have "RecvDone i \<notin> set (ys @ z)"
    proof
      assume "RecvDone i \<in> set (ys @ z)"
      with after have "not_later (SendOut oname i otgt) (RecvDone i)" by blast
      with ns show False by (simp add: not_later_def)
    qed
    ultimately have r: "RecvDone i \<in> set xs" unfolding id by auto
    then have "RecvDone i \<in> set tr" using tr by simp
    with assms have "RecvDone i \<in> set (fst (Run bash probe execfs seen p))"
      by (auto dest: set_mono_prefix)
    from Run_recv[OF this] r show ?thesis by simp
  qed
  have O: "prefix (filter (nonstream_on port) tr) (port_sends port 0 ?tasks) \<and>
           sorted (map task_no (filter (nonstream_on port) tr))" for port
  proof
    from filter_mono_prefix[OF pre, of "nonstream_on port"]
    show "prefix (filter (nonstream_on port) tr) (port_sends port 0 ?tasks)"
      by (simp add: filter_nonstream_run)
    have "sorted_wrt not_later tr" using sorted_wrt_prefix[OF pre srt] .
    then have "sorted_wrt not_later (filter (nonstream_on port) tr)"
      by (rule sorted_wrt_filter)
    then have "sorted_wrt (\<lambda>x y. task_no x \<le> task_no y) (filter (nonstream_on port) tr)"
    proof (rule sorted_wrt_mono_rel[rotated])
      fix x y assume "x \<in> set (filter (nonstream_on port) tr)" "y \<in> set (filter (nonstream_on port) tr)"
        and nl: "not_later x y"
      then have "nonstream_on port x" "nonstream_on port y" by auto
      then obtain i j tx ty where "x = SendOut port i tx" "\<not> doStream tx" "y = SendOut port j ty" "\<not> doStream ty"
        by (cases x; cases y) auto
      with nl show "task_no x \<le> task_no y" by (auto simp: not_later_def)
    qed
    then show "sorted (map task_no (filter (nonstream_on port) tr))"
      by (simp add: sorted_wrt_map)
  qed
  have L: "\<forall>port. filter (nonstream_on port) (fst (Run bash probe execfs seen p)) = port_sends port 0 ?tasks"
    if "snd (Run bash probe execfs seen p) = RunReturned"
    using RP that by (simp add: filter_nonstream_run)
  have P1: "\<forall>xs ys i. tr = xs @ GoExecute i # ys \<longrightarrow>
            i < length ?tasks \<and>
            (\<forall>(oname, otgt) \<in> set (OutTargets (?tasks ! i)).
               doStream otgt \<longrightarrow> SendOut oname i otgt \<in> set xs) \<and>
            (\<forall>oname otgt. doStream otgt \<longrightarrow> SendOut oname i otgt \<notin> set ys)"
    using S by blast
  have P2: "\<forall>xs ys oname i otgt. tr = xs @ SendOut oname i otgt # ys \<and> \<not> doStream otgt \<longrightarrow>
            RecvDone i \<in> set xs \<and> i < length ?tasks \<and>
            (\<exists>fs. awaitDone bash probe execfs seen i (?tasks ! i) = Returned fs)"
    using N by blast
  have P3: "\<forall>port. prefix (filter (nonstream_on port) tr) (port_sends port 0 ?tasks) \<and>
                 sorted (map task_no (filter (nonstream_on port) tr))"
    using O by blast
  have P4: "snd (Run bash probe execfs seen p) = RunReturned \<longrightarrow>
            (\<forall>port. filter (nonstream_on port) (fst (Run bash probe execfs seen p))
                      = port_sends port 0 ?tasks)"
    using L by blast
  show ?thesis
    apply (rule conjI[OF P1])
    apply (rule conjI[OF P2])
    apply (rule conjI[OF P3])
    apply (rule P4)
    done
qed

theorem Run_output_order_witness:
  "Run (\<lambda>c fs. Some (insert ''x.tmp'' fs)) (\<lambda>i. {}) (\<lambda>i. {''s.fifo''}) (\<lambda>i. i)
      \<lparr>InPorts = [], OutPorts = [''out'', ''str''], OutPortsDoStream = [''str'' \<mapsto> True],
       PathFormatters = [(''out'', \<lambda>t. Inr ''x''), (''str'', \<lambda>t. Inr ''s'')],
       ParamPorts = [], CustomExecute_p = None, Prepend = [], CommandPattern = ''true'',
       Spawn = True\<rparr>
     = ([CreateFifos 0, SendOut ''str'' 0 \<lparr>path = ''s'', doStream = True\<rparr>, GoExecute 0,
         RecvDone 0, SendOut ''out'' 0 \<lparr>path = ''x'', doStream = False\<rparr>, CloseOutPorts],
        RunReturned) \<and>
   filter (nonstream_on ''out'')
     (fst (Run (\<lambda>c fs. Some (insert ''x.tmp'' fs)) (\<lambda>i. {}) (\<lambda>i. {''s.fifo''}) (\<lambda>i. i)
      \<lparr>InPorts = [], OutPorts = [''out'', ''str''], OutPortsDoStream = [''str'' \<mapsto> True],
       PathFormatters = [(''out'', \<lambda>t. Inr ''x''), (''str'', \<lambda>t. Inr ''s'')],
       ParamPorts = [], CustomExecute_p = None, Prepend = [], CommandPattern = ''true'',
       Spawn = True\<rparr>))
     = [SendOut ''out'' 0 \<lparr>path = ''x'', doStream = False\<rparr>]"
proof -
  let ?p = "\<lparr>InPorts = [], OutPorts = [''out'', ''str''], OutPortsDoStream = [''str'' \<mapsto> True],
       PathFormatters = [(''out'', \<lambda>t. Inr ''x''), (''str'', \<lambda>t. Inr ''s'')],
       ParamPorts = [], CustomExecute_p = None, Prepend = [], CommandPattern = ''true'',
       Spawn = True\<rparr>"
  let ?t = "\<lparr>InTargets = [], OutTargets = [(''out'', \<lparr>path = ''x'', doStream = False\<rparr>),
                                          (''str'', \<lparr>path = ''s'', doStream = True\<rparr>)],
            Params = [], Command = ''true'', CustomExecute = None\<rparr>"
  let ?bash = "\<lambda>(c :: string) (fs :: files). Some (insert ''x.tmp'' fs)"
  let ?probe = "\<lambda>i :: nat. {} :: files"
  let ?execfs = "\<lambda>i :: nat. {''s.fifo''} :: files"
  let ?seen = "\<lambda>i :: nat. i"
  let ?tr = "[CreateFifos 0, SendOut ''str'' 0 \<lparr>path = ''s'', doStream = True\<rparr>, GoExecute 0,
         RecvDone 0, SendOut ''out'' 0 \<lparr>path = ''x'', doStream = False\<rparr>, CloseOutPorts]"
  have 1: "findAll ''true'' = []" by code_simp
  have 2: "NewShellTask ''true'' [] [(''out'', \<lambda>t. Inr ''x''), (''str'', \<lambda>t. Inr ''s'')]
             [''str'' \<mapsto> True] [] [] = Inr ?t"
    unfolding NewShellTask_def formatCommand_def 1
    by (simp add: NewFileTarget_def doStreamOf_def)
  have 3: "createTasks ?p = (1, [?t], ChannelClosed)"
    by (subst createTasks.simps)
       (simp add: receiveInputs_def receiveParams_def 2 del: findAll.simps)
  have 4: "snd (Execute ?bash ?t {''s.fifo''}) = Returned {''x'', ''s.fifo''}"
    by (simp add: Execute_def anyOutputExists_def fifosInOutTargetsMissing_def runCommand_def
        Atomize_eq GetPath_def GetTempPath_def GetFifoPath_def insert_Diff_if)
  have 5: "Run ?bash ?probe ?execfs ?seen ?p = (?tr, RunReturned)"
    by (simp add: Run_def 3 awaitDone_def anyFifosExist_def 4 GetFifoPath_def)
  have 6: "prefix ?tr (fst (Run ?bash ?probe ?execfs ?seen ?p))" by (simp add: 5)
  note T = Run_output_order[OF 6]
  from T[THEN conjunct2, THEN conjunct2, THEN conjunct2] 5
  have "\<forall>port. filter (nonstream_on port) (fst (Run ?bash ?probe ?execfs ?seen ?p))
                      = port_sends port 0 (tasksOf ?p)" by simp
  then have "filter (nonstream_on ''out'') (fst (Run ?bash ?probe ?execfs ?seen ?p))
                      = port_sends ''out'' 0 (tasksOf ?p)" ..
  also have "\<dots> = [SendOut ''out'' 0 \<lparr>path = ''x'', doStream = False\<rparr>]"
    by (simp add: tasksOf_def 3)
  finally show ?thesis using 5 by simp
qed

subsection \<open>The sends of one task\<close>

fun is_send_of :: "nat \<Rightarrow> run_event \<Rightarrow> bool" where
  "is_send_of i (SendOut oname j otgt) = (j = i)"
| "is_send_of i e = False"

lemma filter_send_sendsOf:
  "filter (is_send_of i) (sendsOf j b ots) = (if j = i then sendsOf j b ots else [])"
  by (induction ots) (auto simp: sendsOf_def)

lemma filter_send_schedule:
  "filter (is_send_of i) (ideal_schedule probe i0 ts) =
     (if i0 \<le> i \<and> i < i0 + length ts then sendsOf i True (OutTargets (ts ! (i - i0))) else [])"
proof (induction ts arbitrary: i0)
  case Nil
  then show ?case by auto
next
  case (Cons t ts)
  show ?case
  proof (cases "i = i0")
    case True
    with Cons.IH[of "Suc i0"] show ?thesis by (simp add: filter_send_sendsOf)
  next
    case False
    show ?thesis
    proof (cases "Suc i0 \<le> i \<and> i < Suc i0 + length ts")
      case True
      then have "i - i0 = Suc (i - Suc i0)" by auto
      then have "(t # ts) ! (i - i0) = ts ! (i - Suc i0)" by simp
      with True False Cons.IH[of "Suc i0"] show ?thesis by (simp add: filter_send_sendsOf)
    next
      case f: False
      with False have "\<not> (i0 \<le> i \<and> i < i0 + length (t # ts))" by auto
      with f False Cons.IH[of "Suc i0"] show ?thesis by (auto simp: filter_send_sendsOf)
    qed
  qed
qed

lemma filter_send_collect:
  "filter (is_send_of i) (ideal_collect i0 ts) =
     (if i0 \<le> i \<and> i < i0 + length ts then sendsOf i False (OutTargets (ts ! (i - i0))) else [])"
proof (induction ts arbitrary: i0)
  case Nil
  then show ?case by auto
next
  case (Cons t ts)
  show ?case
  proof (cases "i = i0")
    case True
    with Cons.IH[of "Suc i0"] show ?thesis by (simp add: filter_send_sendsOf)
  next
    case False
    show ?thesis
    proof (cases "Suc i0 \<le> i \<and> i < Suc i0 + length ts")
      case True
      then have "i - i0 = Suc (i - Suc i0)" by auto
      then have "(t # ts) ! (i - i0) = ts ! (i - Suc i0)" by simp
      with True False Cons.IH[of "Suc i0"] show ?thesis by (simp add: filter_send_sendsOf)
    next
      case f: False
      with False have "\<not> (i0 \<le> i \<and> i < i0 + length (t # ts))" by auto
      with f False Cons.IH[of "Suc i0"] show ?thesis by (auto simp: filter_send_sendsOf)
    qed
  qed
qed

lemma filter_prefix_empty: "prefix xs ys \<Longrightarrow> filter P ys = [] \<Longrightarrow> filter P xs = []"
  by (auto simp: prefix_def)

lemma ideal_schedule_signal:
  "i0 \<le> i \<Longrightarrow> i < i0 + length ts \<Longrightarrow> anyFifosExist (ts ! (i - i0)) (probe i) \<Longrightarrow>
     GoSignal i \<in> set (ideal_schedule probe i0 ts)"
proof (induction ts arbitrary: i0)
  case Nil
  then show ?case by simp
next
  case (Cons t ts)
  show ?case
  proof (cases "i = i0")
    case True
    with Cons.prems show ?thesis by simp
  next
    case False
    with Cons.prems have a: "Suc i0 \<le> i" "i < Suc i0 + length ts" by auto
    then have "i - i0 = Suc (i - Suc i0)" by simp
    then have "(t # ts) ! (i - i0) = ts ! (i - Suc i0)" by simp
    with Cons.prems(3) have "anyFifosExist (ts ! (i - Suc i0)) (probe i)" by simp
    from Cons.IH[OF a this] show ?thesis by simp
  qed
qed

lemma ideal_schedule_execute:
  "GoExecute i \<in> set (ideal_schedule probe i0 ts) \<Longrightarrow> \<not> anyFifosExist (ts ! (i - i0)) (probe i)"
proof (induction ts arbitrary: i0)
  case Nil
  then show ?case by simp
next
  case (Cons t ts)
  from Cons.prems consider "i = i0" "\<not> anyFifosExist t (probe i0)"
    | "i \<noteq> i0" "GoExecute i \<in> set (ideal_schedule probe (Suc i0) ts)"
    | "i = i0" "GoExecute i \<in> set (ideal_schedule probe (Suc i0) ts)"
    by (auto simp: sendsOf_def split: if_splits)
  then show ?case
  proof cases
    case 1
    then show ?thesis by simp
  next
    case 2
    from ideal_schedule_go[OF 2(2)] have a: "Suc i0 \<le> i" by simp
    then have "i - i0 = Suc (i - Suc i0)" by simp
    then have "(t # ts) ! (i - i0) = ts ! (i - Suc i0)" by simp
    with Cons.IH[OF 2(2)] show ?thesis by simp
  next
    case 3
    from ideal_schedule_go[OF 3(2)] 3(1) show ?thesis by simp
  qed
qed

text \<open>
  When the first \<open>k\<close> tasks signal and no send blocks, the second loop of \<^verbatim>\<open>Run\<close> gets
  past them.
\<close>

lemma collect_upto:
  "k \<le> length ts \<Longrightarrow>
   \<forall>j < k. \<exists>fs. awaitDone bash probe execfs seen (i0 + j) (ts ! j) = Returned fs \<Longrightarrow>
   \<forall>t \<in> set ts. \<forall>(oname, otgt) \<in> set (OutTargets t). oname \<in> set ports \<Longrightarrow>
   fst (collect ports bash probe execfs seen i0 ts) =
     ideal_collect i0 (take k ts) @ fst (collect ports bash probe execfs seen (i0 + k) (drop k ts))"
proof (induction k arbitrary: i0 ts)
  case 0
  then show ?case by simp
next
  case (Suc k)
  from Suc.prems(1) obtain t ts' where ts: "ts = t # ts'" by (cases ts) auto
  from Suc.prems(2)[rule_format, of 0] ts obtain fs where
    r: "awaitDone bash probe execfs seen i0 t = Returned fs" by auto
  from Suc.prems(3) ts have 1: "\<forall>(oname, otgt) \<in> set (OutTargets t). oname \<in> set ports"
    and 2: "\<forall>t \<in> set ts'. \<forall>(oname, otgt) \<in> set (OutTargets t). oname \<in> set ports" by auto
  have 3: "\<forall>j < k. \<exists>fs. awaitDone bash probe execfs seen (Suc i0 + j) (ts' ! j) = Returned fs"
  proof (intro allI impI)
    fix j assume "j < k"
    then have "Suc j < Suc k" by simp
    from Suc.prems(2)[rule_format, OF this] ts
    show "\<exists>fs. awaitDone bash probe execfs seen (Suc i0 + j) (ts' ! j) = Returned fs" by simp
  qed
  from Suc.prems(1) ts have 4: "k \<le> length ts'" by simp
  from Suc.IH[OF 4 3 2] sendTargets_all[OF 1, of i0 False] r ts
  show ?case by (simp add: split_beta)
qed

lemma skipped_task_signals:
  "anyFifosExist t (probe i) \<or> anyOutputExists t (execfs i) \<Longrightarrow>
   (anyFifosExist t (probe i) \<longrightarrow> seen i = i) \<Longrightarrow>
     \<exists>fs. awaitDone bash probe execfs seen i t = Returned fs"
  by (auto simp: awaitDone_def Execute_def)

lemma count_list_filter: "P x \<Longrightarrow> count_list (filter P xs) x = count_list xs x"
  by (induction xs) auto

lemma count_list_sendsOf:
  "count_list (sendsOf i True ots @ sendsOf i False ots) (SendOut oname i otgt)
     = count_list ots (oname, otgt)"
  by (induction ots) (auto simp: sendsOf_def)

lemma count_list_distinct_keys:
  "distinct (map fst ots) \<Longrightarrow> (oname, otgt) \<in> set ots \<Longrightarrow> count_list ots (oname, otgt) = 1"
proof (induction ots)
  case Nil
  then show ?case by simp
next
  case (Cons a ots)
  show ?case
  proof (cases "a = (oname, otgt)")
    case True
    with Cons.prems(1) have "(oname, otgt) \<notin> set ots" by (auto simp: image_iff)
    with True show ?thesis by (simp add: count_list_0_iff)
  next
    case False
    with Cons show ?thesis by simp
  qed
qed

lemma Run_unblocked:
  assumes c: "createTasks p = (n, tasks, ChannelClosed)"
    and ports: "\<forall>t \<in> set tasks. \<forall>(oname, otgt) \<in> set (OutTargets t). oname \<in> set (OutPorts p)"
  shows "fst (Run bash probe execfs seen p) =
           ideal_schedule probe 0 tasks @ fst (collect (OutPorts p) bash probe execfs seen 0 tasks)"
  using c schedule_all[OF ports, of probe 0] by (simp add: Run_def split_beta)

text \<open>
  The sends for a task that skips its command. Let \<^verbatim>\<open>createTasks\<close> send the tasks
  \<open>tasks\<close> and close its channel, and let task \<open>i\<close> skip: a FIFO of one of its streaming
  outputs exists when \<^verbatim>\<open>Run\<close> schedules it (then \<^verbatim>\<open>Run\<close> starts the goroutine that only
  signals, and never \<^verbatim>\<open>Execute\<close>), or one of its non-streaming outputs exists at its
  final or temp path when \<^verbatim>\<open>Execute\<close> looks. Let every output of a task have an out-port
  of its name, let every task before \<open>i\<close> signal, let no task end the program (a fatal
  task ends it at a moment of its own, which may come before \<^verbatim>\<open>Run\<close> has sent anything),
  and let the goroutine that signals for task \<open>i\<close>, if that is how it skips, find task
  \<open>i\<close> in the loop variable. Then the sends of \<^verbatim>\<open>Run\<close> for task \<open>i\<close> are its streaming
  outputs followed by its non-streaming outputs, each on the out-port of its name: an
  event \<open>SendOut oname i otgt\<close> occurs as often as \<open>(oname, otgt)\<close> occurs among the
  output targets of the task, which is once for each output when the names are distinct,
  as the keys of the Go map are.
\<close>

lemma Run_skipped_task_sends:
  assumes c: "createTasks p = (n, tasks, ChannelClosed)"
    and i: "i < length tasks"
    and skip: "anyFifosExist (tasks ! i) (probe i) \<or> anyOutputExists (tasks ! i) (execfs i)"
    and own: "anyFifosExist (tasks ! i) (probe i) \<longrightarrow> seen i = i"
    and ports: "\<forall>t \<in> set tasks. \<forall>(oname, otgt) \<in> set (OutTargets t). oname \<in> set (OutPorts p)"
    and earlier: "\<forall>j < i. \<exists>fs. awaitDone bash probe execfs seen j (tasks ! j) = Returned fs"
    and nofatal: "\<forall>j < length tasks. \<forall>e. awaitDone bash probe execfs seen j (tasks ! j) \<noteq> Fatal e"
  shows "filter (is_send_of i) (fst (Run bash probe execfs seen p)) =
           sendsOf i True (OutTargets (tasks ! i)) @ sendsOf i False (OutTargets (tasks ! i)) \<and>
         (\<forall>oname otgt. count_list (fst (Run bash probe execfs seen p)) (SendOut oname i otgt) =
            count_list (OutTargets (tasks ! i)) (oname, otgt)) \<and>
         (distinct (map fst (OutTargets (tasks ! i))) \<longrightarrow>
            (\<forall>(oname, otgt) \<in> set (OutTargets (tasks ! i)).
               count_list (fst (Run bash probe execfs seen p)) (SendOut oname i otgt) = 1)) \<and>
         (anyFifosExist (tasks ! i) (probe i) \<longrightarrow>
            GoSignal i \<in> set (fst (Run bash probe execfs seen p)) \<and>
            GoExecute i \<notin> set (fst (Run bash probe execfs seen p)))"
proof -
  let ?run = "fst (Run bash probe execfs seen p)"
  let ?rest = "fst (collect (OutPorts p) bash probe execfs seen (Suc i) (drop (Suc i) tasks))"
  have r: "?run = ideal_schedule probe 0 tasks @ fst (collect (OutPorts p) bash probe execfs seen 0 tasks)"
    by (rule Run_unblocked[OF c ports])
  have sig: "\<forall>j < Suc i. \<exists>fs. awaitDone bash probe execfs seen (0 + j) (tasks ! j) = Returned fs"
  proof (intro allI impI)
    fix j assume "j < Suc i"
    then consider "j < i" | "j = i" by force
    then show "\<exists>fs. awaitDone bash probe execfs seen (0 + j) (tasks ! j) = Returned fs"
    proof cases
      case 1
      with earlier show ?thesis by simp
    next
      case 2
      with skipped_task_signals[of "tasks ! i" probe i execfs seen bash] skip own show ?thesis by simp
    qed
  qed
  from i have k: "Suc i \<le> length tasks" by simp
  from collect_upto[OF k sig ports]
  have cu: "fst (collect (OutPorts p) bash probe execfs seen 0 tasks) =
              ideal_collect 0 (take (Suc i) tasks) @ ?rest" by simp
  have "prefix ?rest (ideal_collect (Suc i) (drop (Suc i) tasks) @ [CloseOutPorts])"
    using collect_prefix[of "OutPorts p" bash probe execfs seen "Suc i" "drop (Suc i) tasks"] by simp
  moreover have "filter (is_send_of i) (ideal_collect (Suc i) (drop (Suc i) tasks) @ [CloseOutPorts]) = []"
    by (simp add: filter_send_collect)
  ultimately have rest: "filter (is_send_of i) ?rest = []" by (rule filter_prefix_empty)
  from i have "filter (is_send_of i) (ideal_collect 0 (take (Suc i) tasks)) =
                 sendsOf i False (OutTargets (tasks ! i))"
    by (simp add: filter_send_collect)
  moreover from i have "filter (is_send_of i) (ideal_schedule probe 0 tasks) =
                 sendsOf i True (OutTargets (tasks ! i))"
    by (simp add: filter_send_schedule)
  ultimately have A: "filter (is_send_of i) ?run =
      sendsOf i True (OutTargets (tasks ! i)) @ sendsOf i False (OutTargets (tasks ! i))"
    using rest by (simp add: r cu)
  have B: "\<forall>oname otgt. count_list ?run (SendOut oname i otgt) =
             count_list (OutTargets (tasks ! i)) (oname, otgt)"
  proof (intro allI)
    fix oname otgt
    have "count_list ?run (SendOut oname i otgt) =
            count_list (filter (is_send_of i) ?run) (SendOut oname i otgt)"
      by (simp add: count_list_filter)
    also have "\<dots> = count_list (OutTargets (tasks ! i)) (oname, otgt)"
      unfolding A by (rule count_list_sendsOf)
    finally show "count_list ?run (SendOut oname i otgt) =
             count_list (OutTargets (tasks ! i)) (oname, otgt)" .
  qed
  have C: "distinct (map fst (OutTargets (tasks ! i))) \<longrightarrow>
            (\<forall>(oname, otgt) \<in> set (OutTargets (tasks ! i)).
               count_list ?run (SendOut oname i otgt) = 1)"
    using B by (auto simp: count_list_distinct_keys)
  have D: "anyFifosExist (tasks ! i) (probe i) \<longrightarrow> GoSignal i \<in> set ?run \<and> GoExecute i \<notin> set ?run"
  proof
    assume f: "anyFifosExist (tasks ! i) (probe i)"
    from i f have "GoSignal i \<in> set (ideal_schedule probe 0 tasks)"
      using ideal_schedule_signal[of 0 i tasks probe] by simp
    then have 1: "GoSignal i \<in> set ?run" by (simp add: r)
    have 2: "GoExecute i \<notin> set (ideal_schedule probe 0 tasks)"
      using ideal_schedule_execute[of i probe 0 tasks] f by auto
    have "set (fst (collect (OutPorts p) bash probe execfs seen 0 tasks))
            \<subseteq> set (ideal_collect 0 tasks @ [CloseOutPorts])"
      using collect_prefix[of "OutPorts p" bash probe execfs seen 0 tasks] by (auto dest: set_mono_prefix)
    with go_not_in_collect[of i 0 tasks]
    have 3: "GoExecute i \<notin> set (fst (collect (OutPorts p) bash probe execfs seen 0 tasks))" by auto
    from 1 2 3 show "GoSignal i \<in> set ?run \<and> GoExecute i \<notin> set ?run" by (simp add: r)
  qed
  show ?thesis
    apply (rule conjI[OF A])
    apply (rule conjI[OF B])
    apply (rule conjI[OF C])
    apply (rule D)
    done
qed

subsection \<open>A signal that reaches another task\<close>

lemma Run_nonstream_after_recv:
  assumes s: "SendOut oname i otgt \<in> set (fst (Run bash probe execfs seen p))"
    and ns: "\<not> doStream otgt"
  shows "RecvDone i \<in> set (fst (Run bash probe execfs seen p))"
proof -
  let ?tasks = "tasksOf p"
  let ?tr = "fst (Run bash probe execfs seen p)"
  let ?ideal = "ideal_run probe ?tasks"
  from Run_prefix[of bash probe execfs seen p] obtain z where z: "?ideal = ?tr @ z"
    by (auto simp: prefix_def)
  from s obtain xs ys where tr: "?tr = xs @ SendOut oname i otgt # ys"
    by (auto simp: in_set_conv_decomp)
  from z tr have id: "?ideal = xs @ SendOut oname i otgt # (ys @ z)" by simp
  from sorted_ideal_run[of probe ?tasks]
  have after: "\<forall>y \<in> set (ys @ z). not_later (SendOut oname i otgt) y"
    unfolding id by (simp add: sorted_wrt_append)
  have "SendOut oname i otgt \<in> set ?ideal" unfolding id by simp
  then have "SendOut oname i otgt \<in> set (ideal_collect 0 ?tasks)"
    using nonstream_not_in_schedule[OF ns] by (auto simp: ideal_run_def)
  from ideal_collect_send[OF this] have i: "i < length ?tasks" by simp
  from ideal_collect_recv[of 0 i ?tasks] i have "RecvDone i \<in> set ?ideal"
    by (simp add: ideal_run_def)
  moreover have "RecvDone i \<notin> set (ys @ z)"
  proof
    assume "RecvDone i \<in> set (ys @ z)"
    with after have "not_later (SendOut oname i otgt) (RecvDone i)" by blast
    with ns show False by (simp add: not_later_def)
  qed
  ultimately have "RecvDone i \<in> set xs" unfolding id by auto
  then show ?thesis using tr by simp
qed

text \<open>
  Claim C5. The claim holds of a task that skips inside \<^verbatim>\<open>Execute\<close>, and of one for
  which \<^verbatim>\<open>Run\<close> found a FIFO as long as the goroutine that signals in place of the
  execution finds that task in the loop variable. The code does not see to that: the
  goroutine reads the variable after the loop may have put the next task there. When it
  does find another task (\<open>seen i \<noteq> i\<close>), for a task \<open>i\<close> with a FIFO at scheduling time,
  nothing arrives on the \<^verbatim>\<open>Done\<close> channel of task \<open>i\<close>: \<^verbatim>\<open>Run\<close> never gets past its
  receive for task \<open>i\<close> and does not return, and no non-streaming output IP of task
  \<open>i\<close> is sent on any out-port, where the claim has each of them sent once.
\<close>

theorem Run_misdirected_signal_blocks:
  assumes i: "i < length (tasksOf p)"
    and fifo: "anyFifosExist (tasksOf p ! i) (probe i)"
    and other: "seen i \<noteq> i"
  shows "awaitDone bash probe execfs seen i (tasksOf p ! i) = Waiting \<and>
         RecvDone i \<notin> set (fst (Run bash probe execfs seen p)) \<and>
         (\<forall>oname otgt. \<not> doStream otgt \<longrightarrow>
            SendOut oname i otgt \<notin> set (fst (Run bash probe execfs seen p))) \<and>
         snd (Run bash probe execfs seen p) \<noteq> RunReturned"
proof -
  let ?tr = "fst (Run bash probe execfs seen p)"
  from fifo other have w: "awaitDone bash probe execfs seen i (tasksOf p ! i) = Waiting"
    by (simp add: awaitDone_def)
  have r: "RecvDone i \<notin> set ?tr"
  proof
    assume "RecvDone i \<in> set ?tr"
    from Run_recv[OF this] w show False by simp
  qed
  have n: "\<forall>oname otgt. \<not> doStream otgt \<longrightarrow> SendOut oname i otgt \<notin> set ?tr"
    using Run_nonstream_after_recv r by blast
  have e: "snd (Run bash probe execfs seen p) \<noteq> RunReturned"
  proof
    assume "snd (Run bash probe execfs seen p) = RunReturned"
    with Run_prefix[of bash probe execfs seen p] have "?tr = ideal_run probe (tasksOf p)" by simp
    moreover from ideal_collect_recv[of 0 i "tasksOf p"] i
    have "RecvDone i \<in> set (ideal_run probe (tasksOf p))" by (simp add: ideal_run_def)
    ultimately show False using r by simp
  qed
  show ?thesis
    apply (rule conjI[OF w])
    apply (rule conjI[OF r])
    apply (rule conjI[OF n])
    apply (rule e)
    done
qed

theorem Run_misdirected_signal_blocks_witness:
  "tasksOf
     ((Shell (\<lambda>n. \<lparr>pending = [], closes = True\<rparr>) (\<lambda>n. \<lparr>pending = [''3'', ''4''], closes = True\<rparr>)
         ''seq {p:n} > {os:s}; date > {o:u}'')
      \<lparr>PathFormatters :=
         [(''s'', \<lambda>t. Inr (paramValue (map_of (Params t)) ''n'' @ ''.s'')),
          (''u'', \<lambda>t. Inr (paramValue (map_of (Params t)) ''n'' @ ''.u''))]\<rparr>)
     = [\<lparr>InTargets = [],
         OutTargets = [(''s'', \<lparr>path = ''3.s'', doStream = True\<rparr>), (''u'', \<lparr>path = ''3.u'', doStream = False\<rparr>)],
         Params = [(''n'', ''3'')], Command = ''seq 3 > 3.s.fifo; date > 3.u.tmp'', CustomExecute = None\<rparr>,
        \<lparr>InTargets = [],
         OutTargets = [(''s'', \<lparr>path = ''4.s'', doStream = True\<rparr>), (''u'', \<lparr>path = ''4.u'', doStream = False\<rparr>)],
         Params = [(''n'', ''4'')], Command = ''seq 4 > 4.s.fifo; date > 4.u.tmp'', CustomExecute = None\<rparr>] \<and>
   Run (\<lambda>c fs. Some fs) (\<lambda>i. {''3.s.fifo''}) (\<lambda>i. {''3.s.fifo'', ''4.s.fifo''}) (\<lambda>i. 1)
     ((Shell (\<lambda>n. \<lparr>pending = [], closes = True\<rparr>) (\<lambda>n. \<lparr>pending = [''3'', ''4''], closes = True\<rparr>)
         ''seq {p:n} > {os:s}; date > {o:u}'')
      \<lparr>PathFormatters :=
         [(''s'', \<lambda>t. Inr (paramValue (map_of (Params t)) ''n'' @ ''.s'')),
          (''u'', \<lambda>t. Inr (paramValue (map_of (Params t)) ''n'' @ ''.u''))]\<rparr>)
     = ([SendOut ''s'' 0 \<lparr>path = ''3.s'', doStream = True\<rparr>, GoSignal 0,
         CreateFifos 1, SendOut ''s'' 1 \<lparr>path = ''4.s'', doStream = True\<rparr>, GoExecute 1],
        DoneBlocks 0) \<and>
   SendOut ''u'' 0 \<lparr>path = ''3.u'', doStream = False\<rparr> \<notin> set (fst
     (Run (\<lambda>c fs. Some fs) (\<lambda>i. {''3.s.fifo''}) (\<lambda>i. {''3.s.fifo'', ''4.s.fifo''}) (\<lambda>i. 1)
       ((Shell (\<lambda>n. \<lparr>pending = [], closes = True\<rparr>) (\<lambda>n. \<lparr>pending = [''3'', ''4''], closes = True\<rparr>)
           ''seq {p:n} > {os:s}; date > {o:u}'')
        \<lparr>PathFormatters :=
           [(''s'', \<lambda>t. Inr (paramValue (map_of (Params t)) ''n'' @ ''.s'')),
            (''u'', \<lambda>t. Inr (paramValue (map_of (Params t)) ''n'' @ ''.u''))]\<rparr>)))"
proof -
  let ?ic = "\<lambda>n :: string. \<lparr>pending = [] :: FileTarget list, closes = True\<rparr>"
  let ?pc = "\<lambda>n :: string. \<lparr>pending = [''3'', ''4''], closes = True\<rparr>"
  let ?cmd = "''seq {p:n} > {os:s}; date > {o:u}''"
  let ?fmt = "[(''s'', \<lambda>t :: ShellTaskCore. Inr (paramValue (map_of (Params t)) ''n'' @ ''.s'') :: error + string),
               (''u'', \<lambda>t. Inr (paramValue (map_of (Params t)) ''n'' @ ''.u''))]"
  let ?p = "(Shell ?ic ?pc ?cmd)\<lparr>PathFormatters := ?fmt\<rparr>"
  let ?o0 = "[(''s'', \<lparr>path = ''3.s'', doStream = True\<rparr>), (''u'', \<lparr>path = ''3.u'', doStream = False\<rparr>)]"
  let ?o1 = "[(''s'', \<lparr>path = ''4.s'', doStream = True\<rparr>), (''u'', \<lparr>path = ''4.u'', doStream = False\<rparr>)]"
  let ?t0 = "\<lparr>InTargets = [], OutTargets = ?o0,
         Params = [(''n'', ''3'')], Command = ''seq 3 > 3.s.fifo; date > 3.u.tmp'', CustomExecute = None\<rparr>"
  let ?t1 = "\<lparr>InTargets = [], OutTargets = ?o1,
         Params = [(''n'', ''4'')], Command = ''seq 4 > 4.s.fifo; date > 4.u.tmp'', CustomExecute = None\<rparr>"
  let ?bash = "\<lambda>(c :: string) (fs :: files). Some fs"
  let ?probe = "\<lambda>i :: nat. {''3.s.fifo''} :: files"
  let ?execfs = "\<lambda>i :: nat. {''3.s.fifo'', ''4.s.fifo''} :: files"
  let ?seen = "\<lambda>i :: nat. 1 :: nat"
  let ?ds = "[''s'' \<mapsto> True] :: string \<rightharpoonup> bool"
  let ?P = "\<lambda>ps. \<lparr>InPorts = [], OutPorts = [''u'', ''s''], OutPortsDoStream = ?ds,
      PathFormatters = ?fmt, ParamPorts = [(''n'', \<lparr>pending = ps, closes = True\<rparr>)],
      CustomExecute_p = None, Prepend = [], CommandPattern = ?cmd, Spawn = True\<rparr>"
  have 1: "findAll ?cmd = [(''{p:n}'', ''p'', ''n''), (''{os:s}'', ''os'', ''s''), (''{o:u}'', ''o'', ''u'')]"
    by code_simp
  have 2: "?p = ?P [''3'', ''4'']"
    unfolding Shell_def initPortsFromCmdPattern_def 1
    by (simp add: initPort_def NewShellProcess_def)
  have m0: "makeOutTargets \<lparr>InTargets = [], OutTargets = [], Params = [(''n'', ''3'')], Command = []\<rparr> ?ds ?fmt
              = Inr ?o0"
    by (simp add: NewFileTarget_def doStreamOf_def paramValue_def)
  have m1: "makeOutTargets \<lparr>InTargets = [], OutTargets = [], Params = [(''n'', ''4'')], Command = []\<rparr> ?ds ?fmt
              = Inr ?o1"
    by (simp add: NewFileTarget_def doStreamOf_def paramValue_def)
  have f0: "formatCommand ?cmd (map_of []) (map_of ?o0) (map_of [(''n'', ''3'')]) []
              = Inr ''seq 3 > 3.s.fifo; date > 3.u.tmp''"
    by code_simp
  have f1: "formatCommand ?cmd (map_of []) (map_of ?o1) (map_of [(''n'', ''4'')]) []
              = Inr ''seq 4 > 4.s.fifo; date > 4.u.tmp''"
    by code_simp
  have n0: "NewShellTask ?cmd [] ?fmt ?ds [(''n'', ''3'')] [] = Inr ?t0"
    by (simp only: NewShellTask_def Let_def m0 f0 sum.case)
  have n1: "NewShellTask ?cmd [] ?fmt ?ds [(''n'', ''4'')] [] = Inr ?t1"
    by (simp only: NewShellTask_def Let_def m1 f1 sum.case)
  have c2: "createTasks (?P []) = (1, [], ChannelClosed)"
    by (subst createTasks.simps) (simp add: receiveInputs_def receiveParams_def)
  have c1: "createTasks (?P [''4'']) = (2, [?t1], ChannelClosed)"
    by (subst createTasks.simps) (simp add: receiveInputs_def receiveParams_def n1 c2)
  have c0: "createTasks (?P [''3'', ''4'']) = (3, [?t0, ?t1], ChannelClosed)"
    by (subst createTasks.simps) (simp add: receiveInputs_def receiveParams_def n0 c1)
  have ts: "tasksOf ?p = [?t0, ?t1]"
    unfolding 2 by (simp add: tasksOf_def c0)
  have i: "0 < length (tasksOf ?p)" by (simp add: ts)
  have fifo: "anyFifosExist (tasksOf ?p ! 0) (?probe 0)"
    by (simp add: ts anyFifosExist_def GetFifoPath_def)
  have other: "?seen 0 \<noteq> 0" by simp
  note T = Run_misdirected_signal_blocks[of 0 ?p ?probe ?seen ?bash ?execfs, OF i fifo other]
  have r: "Run ?bash ?probe ?execfs ?seen ?p =
     ([SendOut ''s'' 0 \<lparr>path = ''3.s'', doStream = True\<rparr>, GoSignal 0,
       CreateFifos 1, SendOut ''s'' 1 \<lparr>path = ''4.s'', doStream = True\<rparr>, GoExecute 1],
      DoneBlocks 0)"
    unfolding 2 by (simp add: Run_def c0 awaitDone_def anyFifosExist_def GetFifoPath_def)
  have "\<not> doStream \<lparr>path = ''3.u'', doStream = False\<rparr>" by simp
  with T[THEN conjunct2, THEN conjunct2, THEN conjunct1]
  have s: "SendOut ''u'' 0 \<lparr>path = ''3.u'', doStream = False\<rparr> \<notin>
             set (fst (Run ?bash ?probe ?execfs ?seen ?p))"
    by blast
  show ?thesis
    apply (rule conjI[OF ts])
    apply (rule conjI[OF r])
    apply (rule s)
    done
qed

end
